theory Spec2Isabelle
  imports Main "HOL-Library.AList"
begin

section \<open>The CSP solver of main.py\<close>

text \<open>
  A shallow embedding of the class \<open>CSP\<close>. Variable names are strings and domain values
  are Python integers. A constraint is a tuple of variable names together with a
  predicate; the predicate is applied to the list of the tuple's values in tuple order
  (the source unpacks that list into the callable's arguments) and is taken to be a
  total boolean function of it.

  The assignment is a Python \<open>dict\<close>; it is modelled as an association list in insertion
  order, so that \<open>len\<close> is \<open>length\<close>: \<open>assignment[k] = v\<close> is \<open>AList.update\<close>
  (overwrite in place, or append), \<open>del assignment[k]\<close> removes the entry and raises
  \<open>KeyError\<close> when there is none, \<open>assignment.get(k, None)\<close> is \<open>map_of\<close>.

  \<open>self.domains\<close> is a \<open>dict\<close> that is only ever subscripted: a partial map whose
  missing keys raise \<open>KeyError\<close>. \<open>self.neighbors\<close> is a \<open>defaultdict(list)\<close>:
  subscripting a missing key stores an empty list under that key and returns it.
\<close>

type_synonym var = string
type_synonym val = int
type_synonym constraint = "var list \<times> (val list \<Rightarrow> bool)"
type_synonym assignment = "(var \<times> val) list"

datatype error = KeyError var | ValueError

record CSP =
  variables :: "var list"
  domains :: "var \<rightharpoonup> val list"
  constraints :: "constraint list"
  neighbors :: "var \<rightharpoonup> var list"

subsection \<open>Dictionary primitives\<close>

definition keys :: "assignment \<Rightarrow> var set" where
  "keys a = set (map fst a)"

text \<open>\<open>del d[k]\<close>.\<close>

definition py_del :: "var \<Rightarrow> assignment \<Rightarrow> error + assignment" where
  "py_del k a = (if k \<in> keys a then Inr (AList.delete k a) else Inl (KeyError k))"

text \<open>\<open>self.neighbors[v]\<close>: the list read, and the object after the read.\<close>

definition neighbors_getitem :: "CSP \<Rightarrow> var \<Rightarrow> var list \<times> CSP" where
  "neighbors_getitem c v =
     (case neighbors c v of
        Some l \<Rightarrow> (l, c)
      | None \<Rightarrow> ([], c\<lparr>neighbors := (neighbors c)(v \<mapsto> [])\<rparr>))"

subsection \<open>Construction\<close>

text \<open>The body of the inner loop of \<open>_create_constraint_graph\<close>.\<close>

definition extend_neighbors :: "var list \<Rightarrow> CSP \<Rightarrow> var \<Rightarrow> CSP" where
  "extend_neighbors vars c var =
     (case neighbors_getitem c var of
        (l, c1) \<Rightarrow> c1\<lparr>neighbors := (neighbors c1)(var \<mapsto> l @ filter (\<lambda>v. v \<noteq> var) vars)\<rparr>)"

definition create_constraint_graph :: "CSP \<Rightarrow> CSP" where
  "create_constraint_graph c =
     foldl (\<lambda>c1 (vars, condition). foldl (extend_neighbors vars) c1 vars) c (constraints c)"

definition CSP_init :: "var list \<Rightarrow> (var \<rightharpoonup> val list) \<Rightarrow> constraint list \<Rightarrow> CSP" where
  "CSP_init vs ds cs =
     create_constraint_graph
       \<lparr>variables = vs, domains = ds, constraints = cs, neighbors = Map.empty\<rparr>"

subsection \<open>The consistency checker\<close>

text \<open>
  The loop of \<open>_is_assignment_valid\<close> over the constraints, run on the tentative
  assignment; it stops with \<open>False\<close> at the first relevant constraint that is fully
  bound and whose predicate fails.
\<close>

fun check_constraints :: "constraint list \<Rightarrow> var \<Rightarrow> assignment \<Rightarrow> bool" where
  "check_constraints [] variable a = True"
| "check_constraints ((vars, condition) # rest) variable a =
     (if variable \<in> set vars then
        (let values = map (map_of a) vars in
         if None \<notin> set values \<and> \<not> condition (map the values) then False
         else check_constraints rest variable a)
      else check_constraints rest variable a)"

text \<open>
  Both exits delete the key that the first statement has just set, so that deletion
  cannot raise.
\<close>

definition is_assignment_valid :: "CSP \<Rightarrow> var \<Rightarrow> val \<Rightarrow> assignment \<Rightarrow> bool \<times> assignment" where
  "is_assignment_valid c variable x a =
     (let a1 = AList.update variable x a in
      (check_constraints (constraints c) variable a1, AList.delete variable a1))"

subsection \<open>Variable selection\<close>

text \<open>
  \<open>sorted(unassigned, key=lambda v: len(self.domains[v]))\<close> computes the key of every
  element, in order, before sorting; the first variable without a domain raises. The sort
  itself is \<open>sort_key\<close>, the insertion sort of the library: it is stable, as \<open>sorted\<close> is,
  and a stable sort by a key has one result.
\<close>

fun domain_sizes :: "CSP \<Rightarrow> var list \<Rightarrow> error + (var \<times> nat) list" where
  "domain_sizes c [] = Inr []"
| "domain_sizes c (v # vs) =
     (case domains c v of
        None \<Rightarrow> Inl (KeyError v)
      | Some d \<Rightarrow>
          (case domain_sizes c vs of
             Inl e \<Rightarrow> Inl e
           | Inr ks \<Rightarrow> Inr ((v, length d) # ks)))"

text \<open>The keys \<open>len(self.neighbors[v])\<close> of \<open>max\<close>, each read going through the defaultdict.\<close>

fun degrees :: "CSP \<Rightarrow> var list \<Rightarrow> (var \<times> nat) list \<times> CSP" where
  "degrees c [] = ([], c)"
| "degrees c (v # vs) =
     (case neighbors_getitem c v of
        (l, c1) \<Rightarrow>
          (case degrees c1 vs of
             (ks, c2) \<Rightarrow> ((v, length l) # ks, c2)))"

text \<open>
  \<open>max(xs, key=...)\<close>: the first element whose key is the largest; \<open>ValueError\<close> on
  an empty sequence.
\<close>

fun py_max :: "(var \<times> nat) list \<Rightarrow> error + var" where
  "py_max [] = Inl ValueError"
| "py_max (x # xs) = Inr (fst (foldl (\<lambda>best y. if snd best < snd y then y else best) x xs))"

definition unassigned_vars :: "CSP \<Rightarrow> assignment \<Rightarrow> var list" where
  "unassigned_vars c a = filter (\<lambda>v. v \<notin> keys a) (variables c)"

definition select_next_variable :: "CSP \<Rightarrow> assignment \<Rightarrow> error + (var \<times> CSP)" where
  "select_next_variable c a =
     (let unassigned = unassigned_vars c a in
      case domain_sizes c unassigned of
        Inl e \<Rightarrow> Inl e
      | Inr ks \<Rightarrow>
          (let min_domain_vars = map fst (sort_key snd ks) in
           case degrees c min_domain_vars of
             (ds, c1) \<Rightarrow>
               (case py_max ds of
                  Inl e \<Rightarrow> Inl e
                | Inr v \<Rightarrow> Inr (v, c1))))"

subsection \<open>Value ordering\<close>

text \<open>
  The generator summed in \<open>count_conflicts\<close>: the number of values of the neighbour's
  domain that the checker rejects.
\<close>

fun count_rejected :: "CSP \<Rightarrow> var \<Rightarrow> val list \<Rightarrow> assignment \<Rightarrow> nat \<times> assignment" where
  "count_rejected c neighbor [] a = (0, a)"
| "count_rejected c neighbor (x # xs) a =
     (case is_assignment_valid c neighbor x a of
        (ok, a1) \<Rightarrow>
          (case count_rejected c neighbor xs a1 of
             (k, a2) \<Rightarrow> ((if ok then 0 else 1) + k, a2)))"

text \<open>The loop of \<open>count_conflicts\<close> over the neighbours of the variable.\<close>

fun neighbor_conflicts :: "CSP \<Rightarrow> var list \<Rightarrow> assignment \<Rightarrow> error + (nat \<times> assignment)" where
  "neighbor_conflicts c [] a = Inr (0, a)"
| "neighbor_conflicts c (neighbor # rest) a =
     (if neighbor \<notin> keys a then
        (case domains c neighbor of
           None \<Rightarrow> Inl (KeyError neighbor)
         | Some d \<Rightarrow>
             (case count_rejected c neighbor d a of
                (k, a1) \<Rightarrow>
                  (case neighbor_conflicts c rest a1 of
                     Inl e \<Rightarrow> Inl e
                   | Inr (k', a2) \<Rightarrow> Inr (k + k', a2))))
      else neighbor_conflicts c rest a)"

definition count_conflicts :: "CSP \<Rightarrow> var \<Rightarrow> val \<Rightarrow> assignment \<Rightarrow> error + (nat \<times> CSP \<times> assignment)" where
  "count_conflicts c variable x a =
     (let a1 = AList.update variable x a in
      case neighbors_getitem c variable of
        (ns, c1) \<Rightarrow>
          (case neighbor_conflicts c1 ns a1 of
             Inl e \<Rightarrow> Inl e
           | Inr (k, a2) \<Rightarrow>
               (case py_del variable a2 of
                  Inl e \<Rightarrow> Inl e
                | Inr a3 \<Rightarrow> Inr (k, c1, a3))))"

text \<open>The keys of \<open>sorted(self.domains[variable], key=count_conflicts)\<close>, in order.\<close>

fun conflict_counts :: "CSP \<Rightarrow> var \<Rightarrow> val list \<Rightarrow> assignment \<Rightarrow> error + ((val \<times> nat) list \<times> CSP \<times> assignment)" where
  "conflict_counts c variable [] a = Inr ([], c, a)"
| "conflict_counts c variable (x # xs) a =
     (case count_conflicts c variable x a of
        Inl e \<Rightarrow> Inl e
      | Inr (k, c1, a1) \<Rightarrow>
          (case conflict_counts c1 variable xs a1 of
             Inl e \<Rightarrow> Inl e
           | Inr (ks, c2, a2) \<Rightarrow> Inr ((x, k) # ks, c2, a2)))"

definition order_values_by_least_conflicts :: "CSP \<Rightarrow> var \<Rightarrow> assignment \<Rightarrow> error + (val list \<times> CSP \<times> assignment)" where
  "order_values_by_least_conflicts c variable a =
     (case domains c variable of
        None \<Rightarrow> Inl (KeyError variable)
      | Some d \<Rightarrow>
          (case conflict_counts c variable d a of
             Inl e \<Rightarrow> Inl e
           | Inr (ks, c1, a1) \<Rightarrow> Inr (map fst (sort_key snd ks), c1, a1)))"

subsection \<open>Backtracking search\<close>

text \<open>
  A call of \<open>_recursive_backtracking\<close> ends in one of three ways: it raises, or it
  returns \<open>None\<close> or the assignment object. The outcome carries the object \<open>self\<close> and
  the shared assignment as the call leaves them. The recursion is by fuel, and \<open>None\<close> at
  the outer level means that the fuel ran out.
\<close>

type_synonym outcome = "(error + (assignment option \<times> CSP \<times> assignment)) option"

text \<open>\<open>if result:\<close> on a value that is \<open>None\<close> or a dict.\<close>

fun truthy :: "assignment option \<Rightarrow> bool" where
  "truthy None = False"
| "truthy (Some r) = (r \<noteq> [])"

text \<open>The \<open>for value in ...\<close> loop; \<open>rec\<close> is the recursive call.\<close>

fun try_values :: "(CSP \<Rightarrow> assignment \<Rightarrow> outcome) \<Rightarrow> var \<Rightarrow> val list \<Rightarrow> CSP \<Rightarrow> assignment \<Rightarrow> outcome" where
  "try_values rec variable [] c a = Some (Inr (None, c, a))"
| "try_values rec variable (x # xs) c a =
     (case is_assignment_valid c variable x a of
        (False, a1) \<Rightarrow> try_values rec variable xs c a1
      | (True, a1) \<Rightarrow>
          (case rec c (AList.update variable x a1) of
             None \<Rightarrow> None
           | Some (Inl e) \<Rightarrow> Some (Inl e)
           | Some (Inr (result, c1, a2)) \<Rightarrow>
               if truthy result then Some (Inr (result, c1, a2))
               else (case py_del variable a2 of
                       Inl e \<Rightarrow> Some (Inl e)
                     | Inr a3 \<Rightarrow> try_values rec variable xs c1 a3)))"

primrec recursive_backtracking :: "nat \<Rightarrow> CSP \<Rightarrow> assignment \<Rightarrow> outcome" where
  "recursive_backtracking 0 c a = None"
| "recursive_backtracking (Suc n) c a =
     (if length a = length (variables c) then Some (Inr (Some a, c, a))
      else
        (case select_next_variable c a of
           Inl e \<Rightarrow> Some (Inl e)
         | Inr (variable, c1) \<Rightarrow>
             (case order_values_by_least_conflicts c1 variable a of
                Inl e \<Rightarrow> Some (Inl e)
              | Inr (vals, c2, a1) \<Rightarrow> try_values (recursive_backtracking n) variable vals c2 a1)))"

text \<open>
  \<open>solve\<close> starts from the empty dict. Each level of the recursion binds one more
  variable, so one unit of fuel per variable and one for the last call is enough
  (\<open>solve_returns\<close> below), and more fuel gives the same outcome (\<open>solve_fuel\<close>).
\<close>

definition solve :: "CSP \<Rightarrow> outcome" where
  "solve c = recursive_backtracking (Suc (length (variables c))) c []"

section \<open>Specification vocabulary\<close>

text \<open>
  The list that \<open>self.neighbors[v]\<close> reads, whether the key is stored or not.
\<close>

definition neighbor_list :: "CSP \<Rightarrow> var \<Rightarrow> var list" where
  "neighbor_list c v = (case neighbors c v of None \<Rightarrow> [] | Some l \<Rightarrow> l)"

text \<open>
  \<open>only_defaulted c c'\<close>: the object \<open>c'\<close> is the object \<open>c\<close> after some reads of
  \<open>self.neighbors\<close>; the variables, the domains and the constraints are the same, and the
  mapping differs only by keys that were missing and are now stored with an empty list.
\<close>

definition only_defaulted :: "CSP \<Rightarrow> CSP \<Rightarrow> bool" where
  "only_defaulted c c' \<longleftrightarrow>
     variables c' = variables c \<and> domains c' = domains c \<and> constraints c' = constraints c
     \<and> (\<forall>v. neighbors c' v = neighbors c v \<or> (neighbors c v = None \<and> neighbors c' v = Some []))"

text \<open>
  A property of assignments that the search keeps: it holds again after the search binds
  an unassigned variable to a value of its domain that the checker has accepted.
\<close>

definition step_preserves :: "CSP \<Rightarrow> (assignment \<Rightarrow> bool) \<Rightarrow> bool" where
  "step_preserves c I \<longleftrightarrow>
     (\<forall>a variable x d. I a \<longrightarrow> variable \<in> set (variables c) \<longrightarrow> variable \<notin> keys a \<longrightarrow>
        domains c variable = Some d \<longrightarrow> x \<in> set d \<longrightarrow>
        check_constraints (constraints c) variable (AList.update variable x a) \<longrightarrow>
        I (AList.update variable x a))"

text \<open>
  What a call of \<open>_recursive_backtracking\<close> on \<open>c\<close> and \<open>a\<close> leaves when it returns the
  result \<open>r\<close>, the object \<open>c'\<close> and the assignment \<open>a'\<close>: a falsy result comes with the
  assignment as it was at the call; a returned dict is the assignment itself, it is
  complete and has the property \<open>I\<close> that the search keeps.
\<close>

definition rb_post :: "(assignment \<Rightarrow> bool) \<Rightarrow> CSP \<Rightarrow> assignment \<Rightarrow> assignment option \<Rightarrow> CSP \<Rightarrow> assignment \<Rightarrow> bool" where
  "rb_post I c a r c' a' \<longleftrightarrow>
     only_defaulted c c' \<and> (\<not> truthy r \<longrightarrow> a' = a)
     \<and> (\<forall>s. r = Some s \<longrightarrow> s = a' \<and> I s \<and> length s = length (variables c))"

text \<open>
  An assignment is consistent when every constraint whose whole tuple is bound in it holds
  on the bound values, in tuple order.
\<close>

definition consistent :: "CSP \<Rightarrow> assignment \<Rightarrow> bool" where
  "consistent c a \<longleftrightarrow>
     (\<forall>p \<in> set (constraints c).
        set (fst p) \<subseteq> keys a \<longrightarrow> snd p (map (\<lambda>v. the (map_of a v)) (fst p)))"

text \<open>A dict whose keys are variables of the problem.\<close>

definition partial_assignment :: "CSP \<Rightarrow> assignment \<Rightarrow> bool" where
  "partial_assignment c a \<longleftrightarrow> distinct (map fst a) \<and> keys a \<subseteq> set (variables c)"

text \<open>
  The recursive calls of a run, read off \<open>try_values\<close> and \<open>recursive_backtracking\<close>.
  \<open>loop_calls rec variable xs c a c' a'\<close>: the loop over the values \<open>xs\<close>, started with the
  object \<open>c\<close> and the assignment \<open>a\<close>, calls \<open>rec\<close> on the object \<open>c'\<close> and the
  assignment \<open>a'\<close>. The call is made for the first value if the checker accepts it; the
  loop goes on to the later values when the checker rejects the value, or when the
  recursive call returns a falsy result and the binding has been deleted.
\<close>

inductive loop_calls :: "(CSP \<Rightarrow> assignment \<Rightarrow> outcome) \<Rightarrow> var \<Rightarrow> val list \<Rightarrow> CSP \<Rightarrow> assignment \<Rightarrow> CSP \<Rightarrow> assignment \<Rightarrow> bool"
  for rec :: "CSP \<Rightarrow> assignment \<Rightarrow> outcome" and variable :: var where
  accepted:
    "is_assignment_valid c variable x a = (True, a1) \<Longrightarrow>
       loop_calls rec variable (x # xs) c a c (AList.update variable x a1)"
| after_rejected:
    "is_assignment_valid c variable x a = (False, a1) \<Longrightarrow>
     loop_calls rec variable xs c a1 c' a' \<Longrightarrow>
       loop_calls rec variable (x # xs) c a c' a'"
| after_failed:
    "is_assignment_valid c variable x a = (True, a1) \<Longrightarrow>
     rec c (AList.update variable x a1) = Some (Inr (result, c1, a2)) \<Longrightarrow>
     \<not> truthy result \<Longrightarrow>
     py_del variable a2 = Inr a3 \<Longrightarrow>
     loop_calls rec variable xs c1 a3 c' a' \<Longrightarrow>
       loop_calls rec variable (x # xs) c a c' a'"

text \<open>
  \<open>entered c0 n c a\<close>: the run of \<open>solve\<close> on \<open>c0\<close> enters \<open>_recursive_backtracking\<close>
  with fuel \<open>n\<close>, the object \<open>c\<close> and the assignment \<open>a\<close>.
\<close>

inductive entered :: "CSP \<Rightarrow> nat \<Rightarrow> CSP \<Rightarrow> assignment \<Rightarrow> bool"
  for c0 :: CSP where
  top: "entered c0 (Suc (length (variables c0))) c0 []"
| deeper:
    "entered c0 (Suc n) c a \<Longrightarrow>
     length a \<noteq> length (variables c) \<Longrightarrow>
     select_next_variable c a = Inr (variable, c1) \<Longrightarrow>
     order_values_by_least_conflicts c1 variable a = Inr (vals, c2, a1) \<Longrightarrow>
     loop_calls (recursive_backtracking n) variable vals c2 a1 c' a' \<Longrightarrow>
       entered c0 n c' a'"

text \<open>Every value bound in the assignment comes from the domain of its variable.\<close>

definition in_domains :: "CSP \<Rightarrow> assignment \<Rightarrow> bool" where
  "in_domains c a \<longleftrightarrow> (\<forall>e \<in> set a. \<exists>d. domains c (fst e) = Some d \<and> snd e \<in> set d)"

section \<open>Example instances\<close>

text \<open>Two variables that must differ: \<open>(("A", "B"), lambda a, b: a != b)\<close>.\<close>

definition differ :: "val list \<Rightarrow> bool" where
  "differ xs = (case xs of [a, b] \<Rightarrow> a \<noteq> b | _ \<Rightarrow> False)"

definition csp_ab :: CSP where
  "csp_ab = CSP_init [''A'', ''B''] [''A'' \<mapsto> [1, 2], ''B'' \<mapsto> [1, 2]] [([''A'', ''B''], differ)]"

text \<open>No variable at all, and one constraint that nothing satisfies.\<close>

definition csp_no_vars :: CSP where
  "csp_no_vars = CSP_init [] Map.empty [([''X''], \<lambda>xs. False)]"

text \<open>Variable \<open>A\<close> has no value left; \<open>B\<close> has one, and shares a constraint with \<open>A\<close>.\<close>

definition csp_empty_domain :: CSP where
  "csp_empty_domain = CSP_init [''A'', ''B''] [''A'' \<mapsto> [], ''B'' \<mapsto> [1]] [([''A'', ''B''], differ)]"

text \<open>Two variables and no constraint.\<close>

definition csp_free :: CSP where
  "csp_free = CSP_init [''A'', ''B''] [''A'' \<mapsto> [3, 1], ''B'' \<mapsto> [2, 5]] []"

text \<open>The same variable listed twice.\<close>

definition csp_twice :: CSP where
  "csp_twice = CSP_init [''A'', ''A''] [''A'' \<mapsto> [1]] []"

text \<open>A constraint over a name that is neither a variable nor a key of the domains.\<close>

definition csp_undeclared :: CSP where
  "csp_undeclared = CSP_init [''A''] [''A'' \<mapsto> [1]] [([''X''], \<lambda>xs. False)]"

text \<open>\<open>A\<close> shares a constraint with \<open>X\<close>, which has no domain.\<close>

definition csp_missing_domain :: CSP where
  "csp_missing_domain = CSP_init [''A''] [''A'' \<mapsto> [1]] [([''A'', ''X''], differ)]"

text \<open>\<open>A\<close> has the smallest domain; \<open>B\<close> and \<open>C\<close> share a constraint.\<close>

definition csp_mrv :: CSP where
  "csp_mrv = CSP_init [''A'', ''B'', ''C''] [''A'' \<mapsto> [1], ''B'' \<mapsto> [1, 2], ''C'' \<mapsto> [1, 2]]
     [([''B'', ''C''], differ)]"

text \<open>\<open>X\<close> is a variable of the list, but it has no domain.\<close>

definition csp_listed_no_domain :: CSP where
  "csp_listed_no_domain = CSP_init [''A'', ''X''] [''A'' \<mapsto> [1]] [([''X''], \<lambda>xs. False)]"

text \<open>\<open>X\<close> has a domain, but it is not a variable of the list.\<close>

definition csp_unlisted_domain :: CSP where
  "csp_unlisted_domain = CSP_init [''A''] [''A'' \<mapsto> [1], ''X'' \<mapsto> [1]] [([''A'', ''X''], differ)]"

section \<open>Dictionaries\<close>

lemma keys_Nil: "keys [] = {}"
  by (simp add: keys_def)

lemma keys_update: "keys (AList.update k v a) = insert k (keys a)"
  by (simp add: keys_def dom_update)

lemma keys_delete: "keys (AList.delete k a) = keys a - {k}"
  by (induction a) (auto simp: keys_def)

lemma delete_update_fresh: "k \<notin> keys a \<Longrightarrow> AList.delete k (AList.update k v a) = a"
  by (simp add: delete_update_same keys_def)

lemma map_of_None_keys: "(map_of a v = None) = (v \<notin> keys a)"
  by (simp add: keys_def map_of_eq_None_iff)

section \<open>Construction keeps the problem\<close>

lemma neighbors_getitem_problem:
  "neighbors_getitem c v = (l, c1) \<Longrightarrow>
     variables c1 = variables c \<and> domains c1 = domains c \<and> constraints c1 = constraints c"
  by (auto simp: neighbors_getitem_def split: option.splits)

lemma extend_neighbors_problem:
  "variables (extend_neighbors vars c var) = variables c
   \<and> domains (extend_neighbors vars c var) = domains c
   \<and> constraints (extend_neighbors vars c var) = constraints c"
  by (auto simp: extend_neighbors_def neighbors_getitem_def split: option.splits)

lemma foldl_extend_neighbors_problem:
  "variables (foldl (extend_neighbors vars) c vs) = variables c
   \<and> domains (foldl (extend_neighbors vars) c vs) = domains c
   \<and> constraints (foldl (extend_neighbors vars) c vs) = constraints c"
  by (induction vs arbitrary: c) (simp_all add: extend_neighbors_problem)

lemma foldl_constraints_problem:
  "variables (foldl (\<lambda>c1 (vars, condition). foldl (extend_neighbors vars) c1 vars) c cs) = variables c
   \<and> domains (foldl (\<lambda>c1 (vars, condition). foldl (extend_neighbors vars) c1 vars) c cs) = domains c
   \<and> constraints (foldl (\<lambda>c1 (vars, condition). foldl (extend_neighbors vars) c1 vars) c cs) = constraints c"
  by (induction cs arbitrary: c) (simp_all add: foldl_extend_neighbors_problem split: prod.splits)

lemma CSP_init_fields:
  "variables (CSP_init vs ds cs) = vs"
  "domains (CSP_init vs ds cs) = ds"
  "constraints (CSP_init vs ds cs) = cs"
  by (simp_all add: CSP_init_def create_constraint_graph_def foldl_constraints_problem)

section \<open>The consistency checker\<close>

lemma all_bound_iff: "None \<notin> set (map (map_of a) vars) \<longleftrightarrow> set vars \<subseteq> keys a"
proof (induction vars)
  case Nil
  show ?case by simp
next
  case (Cons v vars)
  have "None \<noteq> map_of a v \<longleftrightarrow> v \<in> keys a"
    using map_of_None_keys [of a v] by metis
  with Cons show ?case by simp
qed

lemma check_constraints_Cons:
  "check_constraints ((vars, condition) # rest) variable a =
     (\<not> (variable \<in> set vars \<and> set vars \<subseteq> keys a \<and> \<not> condition (map (\<lambda>v. the (map_of a v)) vars))
      \<and> check_constraints rest variable a)"
proof -
  have m: "map the (map (map_of a) vars) = map (\<lambda>v. the (map_of a v)) vars" by simp
  have "check_constraints ((vars, condition) # rest) variable a =
     (if variable \<in> set vars then
        (if None \<notin> set (map (map_of a) vars) \<and> \<not> condition (map the (map (map_of a) vars)) then False
         else check_constraints rest variable a)
      else check_constraints rest variable a)"
    by (simp only: check_constraints.simps Let_def)
  also have "\<dots> = (\<not> (variable \<in> set vars \<and> set vars \<subseteq> keys a \<and> \<not> condition (map (\<lambda>v. the (map_of a v)) vars))
      \<and> check_constraints rest variable a)"
    unfolding all_bound_iff m by (cases "variable \<in> set vars") simp_all
  finally show ?thesis .
qed

lemma check_constraints_iff:
  "check_constraints cs variable a \<longleftrightarrow>
     (\<forall>p \<in> set cs.
        variable \<in> set (fst p) \<and> set (fst p) \<subseteq> keys a \<longrightarrow> snd p (map (\<lambda>v. the (map_of a v)) (fst p)))"
proof (induction cs)
  case Nil
  show ?case by simp
next
  case (Cons p cs)
  obtain vars condition where p: "p = (vars, condition)" by (cases p)
  have step: "check_constraints (p # cs) variable a =
     (\<not> (variable \<in> set vars \<and> set vars \<subseteq> keys a \<and> \<not> condition (map (\<lambda>v. the (map_of a v)) vars))
      \<and> check_constraints cs variable a)"
    by (simp only: p check_constraints_Cons)
  show ?case unfolding step Cons.IH by (auto simp: p)
qed

lemma fst_is_assignment_valid:
  "fst (is_assignment_valid c variable x a)
     = check_constraints (constraints c) variable (AList.update variable x a)"
  by (simp add: is_assignment_valid_def Let_def)

lemma snd_is_assignment_valid: "snd (is_assignment_valid c variable x a) = AList.delete variable a"
  by (simp add: is_assignment_valid_def Let_def delete_update_same)

section \<open>The constraint graph\<close>

text \<open>
  After construction the neighbours of a variable are the other variables of the
  constraints it occurs in (\<open>set_neighbor_list_CSP_init\<close>).
\<close>

lemma neighbor_list_extend:
  "neighbor_list (extend_neighbors vars c var) v
     = (if v = var then neighbor_list c var @ filter (\<lambda>u. u \<noteq> var) vars else neighbor_list c v)"
  by (auto simp: extend_neighbors_def neighbors_getitem_def neighbor_list_def split: option.splits)

lemma set_neighbor_list_extend:
  "set (neighbor_list (extend_neighbors vars c w) v)
     = set (neighbor_list c v) \<union> (if v = w then {u \<in> set vars. u \<noteq> v} else {})"
  by (auto simp: neighbor_list_extend)

lemma set_neighbor_list_foldl_extend:
  "set (neighbor_list (foldl (extend_neighbors vars) c ws) v)
     = set (neighbor_list c v) \<union> (if v \<in> set ws then {u \<in> set vars. u \<noteq> v} else {})"
proof (induction ws arbitrary: c)
  case Nil
  show ?case by simp
next
  case (Cons w ws)
  show ?case
    unfolding foldl_Cons Cons.IH [of "extend_neighbors vars c w"] set_neighbor_list_extend
    by auto
qed

lemma set_neighbor_list_graph:
  "set (neighbor_list (foldl (\<lambda>c1 (vars, condition). foldl (extend_neighbors vars) c1 vars) c cs) v)
     = set (neighbor_list c v)
       \<union> {u. \<exists>p \<in> set cs. v \<in> set (fst p) \<and> u \<in> set (fst p) \<and> u \<noteq> v}"
proof (induction cs arbitrary: c)
  case Nil
  show ?case by simp
next
  case (Cons p cs)
  obtain vars condition where p: "p = (vars, condition)" by (cases p)
  have "set (neighbor_list (foldl (\<lambda>c1 (vars, condition). foldl (extend_neighbors vars) c1 vars) c (p # cs)) v)
      = set (neighbor_list (foldl (extend_neighbors vars) c vars) v)
        \<union> {u. \<exists>p \<in> set cs. v \<in> set (fst p) \<and> u \<in> set (fst p) \<and> u \<noteq> v}"
    using Cons.IH [of "foldl (extend_neighbors vars) c vars"] by (simp add: p)
  also have "\<dots> = set (neighbor_list c v)
        \<union> {u. \<exists>p \<in> set (p # cs). v \<in> set (fst p) \<and> u \<in> set (fst p) \<and> u \<noteq> v}"
    unfolding set_neighbor_list_foldl_extend by (auto simp: p)
  finally show ?case .
qed

lemma set_neighbor_list_CSP_init:
  "set (neighbor_list (CSP_init vs ds cs) v)
     = {u. \<exists>p \<in> set cs. v \<in> set (fst p) \<and> u \<in> set (fst p) \<and> u \<noteq> v}"
  using set_neighbor_list_graph
    [of "\<lparr>variables = vs, domains = ds, constraints = cs, neighbors = Map.empty\<rparr>" cs v]
  by (simp add: CSP_init_def create_constraint_graph_def neighbor_list_def)

lemma neighbor_list_CSP_init:
  "n \<in> set (neighbor_list (CSP_init vs ds cs) v) \<Longrightarrow> \<exists>p \<in> set cs. n \<in> set (fst p)"
  unfolding set_neighbor_list_CSP_init by blast

section \<open>Variable selection and value ordering\<close>

lemma only_defaulted_refl: "only_defaulted c c"
  by (simp add: only_defaulted_def)

lemma only_defaulted_trans:
  "only_defaulted c c1 \<Longrightarrow> only_defaulted c1 c2 \<Longrightarrow> only_defaulted c c2"
  unfolding only_defaulted_def by (metis option.distinct(1))

lemma only_defaulted_fields:
  "only_defaulted c c' \<Longrightarrow> variables c' = variables c"
  "only_defaulted c c' \<Longrightarrow> domains c' = domains c"
  "only_defaulted c c' \<Longrightarrow> constraints c' = constraints c"
  by (simp_all add: only_defaulted_def)

lemma only_defaulted_neighbor_list:
  "only_defaulted c c' \<Longrightarrow> neighbor_list c' v = neighbor_list c v"
  unfolding only_defaulted_def neighbor_list_def
  by (metis option.simps(4) option.simps(5))

lemma only_defaulted_unassigned:
  "only_defaulted c c' \<Longrightarrow> unassigned_vars c' a = unassigned_vars c a"
  by (simp add: unassigned_vars_def only_defaulted_def)

lemma neighbors_getitem_eq:
  "neighbors_getitem c v = (l, c1) \<Longrightarrow> l = neighbor_list c v \<and> only_defaulted c c1"
  by (auto simp: neighbors_getitem_def neighbor_list_def only_defaulted_def split: option.splits if_splits)

lemma degrees_eq:
  "degrees c vs = (ks, c') \<Longrightarrow>
     ks = map (\<lambda>v. (v, length (neighbor_list c v))) vs \<and> only_defaulted c c'"
proof (induction vs arbitrary: c ks c')
  case Nil
  then show ?case by (simp add: only_defaulted_refl)
next
  case (Cons v vs)
  obtain l c1 where g: "neighbors_getitem c v = (l, c1)" by (cases "neighbors_getitem c v")
  obtain ks1 c2 where d: "degrees c1 vs = (ks1, c2)" by (cases "degrees c1 vs")
  from Cons.prems g d have r: "ks = (v, length l) # ks1" "c' = c2" by simp_all
  note g' = neighbors_getitem_eq [OF g]
  note ih = Cons.IH [OF d]
  have "\<And>u. neighbor_list c1 u = neighbor_list c u"
    using g' by (simp add: only_defaulted_neighbor_list)
  with ih have "ks1 = map (\<lambda>v. (v, length (neighbor_list c v))) vs"
    by simp
  moreover have "only_defaulted c c'"
    using g' ih r only_defaulted_trans by blast
  ultimately show ?case using r g' by simp
qed

lemma domain_sizes_Inr:
  "domain_sizes c vs = Inr ks \<Longrightarrow>
     ks = map (\<lambda>v. (v, length (the (domains c v)))) vs \<and> (\<forall>v \<in> set vs. domains c v \<noteq> None)"
  by (induction vs arbitrary: ks) (auto split: option.splits sum.splits)

lemma domain_sizes_Inl:
  "domain_sizes c vs = Inl e \<Longrightarrow> \<exists>v \<in> set vs. domains c v = None \<and> e = KeyError v"
  by (induction vs) (auto split: option.splits sum.splits)

lemma domain_sizes_total:
  "\<forall>v \<in> set vs. domains c v \<noteq> None \<Longrightarrow>
     domain_sizes c vs = Inr (map (\<lambda>v. (v, length (the (domains c v)))) vs)"
  by (induction vs) auto

lemma foldl_max_mem:
  "foldl (\<lambda>best y. if snd best < snd y then y else best) x xs \<in> set (x # xs)"
  by (induction xs arbitrary: x) auto

lemma py_max_Inr:
  assumes "py_max ks = Inr v"
  shows "v \<in> fst ` set ks"
proof (cases ks)
  case Nil
  with assms show ?thesis by simp
next
  case (Cons x xs)
  with assms have "v = fst (foldl (\<lambda>best y. if snd best < snd y then y else best) x xs)"
    by simp
  with foldl_max_mem [of x xs] Cons show ?thesis by blast
qed

lemma py_max_Inl: "py_max ks = Inl e \<Longrightarrow> ks = [] \<and> e = ValueError"
  by (cases ks) auto

lemma select_next_variable_Inr:
  assumes "select_next_variable c a = Inr (v, c')"
  shows "v \<in> set (unassigned_vars c a) \<and> only_defaulted c c'"
proof -
  from assms obtain ks where ks: "domain_sizes c (unassigned_vars c a) = Inr ks"
    by (auto simp: select_next_variable_def Let_def split: sum.splits)
  obtain ds c1 where ds: "degrees c (map fst (sort_key snd ks)) = (ds, c1)"
    by (cases "degrees c (map fst (sort_key snd ks))")
  from assms ks ds have m: "py_max ds = Inr v" and c1: "c' = c1"
    by (auto simp: select_next_variable_def Let_def split: sum.splits)
  from degrees_eq [OF ds] have "fst ` set ds = fst ` set ks" and od: "only_defaulted c c1"
    by (simp_all add: image_image)
  moreover from domain_sizes_Inr [OF ks] have "fst ` set ks = set (unassigned_vars c a)"
    by (simp add: image_image)
  ultimately show ?thesis using py_max_Inr [OF m] c1 by simp
qed

lemma select_next_variable_Inl:
  assumes "select_next_variable c a = Inl e"
  shows "(e = ValueError \<and> unassigned_vars c a = [])
         \<or> (\<exists>v \<in> set (unassigned_vars c a). domains c v = None \<and> e = KeyError v)"
proof (cases "domain_sizes c (unassigned_vars c a)")
  case (Inl e')
  with assms have "e' = e" by (simp add: select_next_variable_def Let_def)
  with domain_sizes_Inl Inl show ?thesis by blast
next
  case (Inr ks)
  obtain ds c1 where ds: "degrees c (map fst (sort_key snd ks)) = (ds, c1)"
    by (cases "degrees c (map fst (sort_key snd ks))")
  from assms Inr ds have m: "py_max ds = Inl e"
    by (auto simp: select_next_variable_def Let_def split: sum.splits)
  from py_max_Inl [OF m] degrees_eq [OF ds] have "sort_key snd ks = []" and "e = ValueError"
    by auto
  then have "length ks = 0" "e = ValueError"
    using length_sort [of snd ks] by simp_all
  then have "ks = []" "e = ValueError" by simp_all
  moreover from domain_sizes_Inr [OF Inr] \<open>ks = []\<close> have "unassigned_vars c a = []" by simp
  ultimately show ?thesis by simp
qed

lemma snd_count_rejected:
  "neighbor \<notin> keys a \<Longrightarrow> snd (count_rejected c neighbor xs a) = a"
proof (induction xs)
  case Nil
  show ?case by simp
next
  case (Cons x xs)
  have "snd (is_assignment_valid c neighbor x a) = a"
    using Cons.prems by (simp add: snd_is_assignment_valid keys_def)
  with Cons show ?case by (auto split: prod.splits)
qed

lemma neighbor_conflicts_Inr:
  "neighbor_conflicts c ns a = Inr (k, a') \<Longrightarrow> a' = a"
proof (induction ns arbitrary: k)
  case Nil
  then show ?case by simp
next
  case (Cons n ns)
  show ?case
  proof (cases "n \<in> keys a")
    case True
    with Cons show ?thesis by simp
  next
    case False
    from Cons.prems False obtain d where d: "domains c n = Some d"
      by (auto split: option.splits)
    obtain k1 a1 where r: "count_rejected c n d a = (k1, a1)" by (cases "count_rejected c n d a")
    with snd_count_rejected [OF False, of c d] have a1: "a1 = a" by simp
    from Cons.prems False d r a1 obtain k2 where "neighbor_conflicts c ns a = Inr (k2, a')"
      by (auto split: sum.splits)
    with Cons.IH show ?thesis by blast
  qed
qed

lemma neighbor_conflicts_Inl:
  "neighbor_conflicts c ns a = Inl e \<Longrightarrow>
     \<exists>n \<in> set ns. n \<notin> keys a \<and> domains c n = None \<and> e = KeyError n"
proof (induction ns)
  case Nil
  then show ?case by simp
next
  case (Cons n ns)
  show ?case
  proof (cases "n \<in> keys a")
    case True
    with Cons show ?thesis by simp
  next
    case False
    show ?thesis
    proof (cases "domains c n")
      case None
      with Cons.prems False show ?thesis by simp
    next
      case (Some d)
      obtain k1 a1 where r: "count_rejected c n d a = (k1, a1)" by (cases "count_rejected c n d a")
      with snd_count_rejected [OF False, of c d] have a1: "a1 = a" by simp
      from Cons.prems False Some r a1 have "neighbor_conflicts c ns a = Inl e"
        by (auto split: sum.splits)
      with Cons.IH show ?thesis by auto
    qed
  qed
qed

lemma neighbor_conflicts_raises:
  "n \<in> set ns \<Longrightarrow> n \<notin> keys a \<Longrightarrow> domains c n = None \<Longrightarrow>
     \<exists>e. neighbor_conflicts c ns a = Inl e"
proof (induction ns)
  case Nil
  then show ?case by simp
next
  case (Cons m ns)
  show ?case
  proof (cases "m \<notin> keys a \<and> domains c m = None")
    case True
    then show ?thesis by simp
  next
    case False
    with Cons.prems have "n \<in> set ns" by auto
    from Cons.IH [OF this Cons.prems(2,3)] obtain e where e: "neighbor_conflicts c ns a = Inl e" ..
    show ?thesis
    proof (cases "m \<in> keys a")
      case True
      with e show ?thesis by simp
    next
      case notin: False
      with False obtain d where d: "domains c m = Some d" by auto
      obtain k1 a1 where r: "count_rejected c m d a = (k1, a1)" by (cases "count_rejected c m d a")
      with snd_count_rejected [OF notin, of c d] have a1: "a1 = a" by simp
      from notin d r a1 e show ?thesis by simp
    qed
  qed
qed

lemma neighbor_conflicts_total:
  "\<forall>n \<in> set ns. n \<notin> keys a \<longrightarrow> domains c n \<noteq> None \<Longrightarrow>
     \<exists>k. neighbor_conflicts c ns a = Inr (k, a)"
proof (induction ns)
  case Nil
  show ?case by simp
next
  case (Cons m ns)
  then obtain k where k: "neighbor_conflicts c ns a = Inr (k, a)" by auto
  show ?case
  proof (cases "m \<in> keys a")
    case True
    with k show ?thesis by simp
  next
    case False
    with Cons.prems obtain d where d: "domains c m = Some d" by auto
    obtain k1 a1 where r: "count_rejected c m d a = (k1, a1)" by (cases "count_rejected c m d a")
    with snd_count_rejected [OF False, of c d] have a1: "a1 = a" by simp
    from False d r a1 k show ?thesis by simp
  qed
qed

lemma py_del_update:
  "py_del variable (AList.update variable x a) = Inr (AList.delete variable a)"
  by (simp add: py_del_def keys_update delete_update_same)

lemma count_conflicts_Inr:
  assumes "count_conflicts c variable x a = Inr (k, c', a')"
  shows "only_defaulted c c' \<and> a' = AList.delete variable a"
proof -
  obtain ns c1 where g: "neighbors_getitem c variable = (ns, c1)"
    by (cases "neighbors_getitem c variable")
  from assms g obtain k1 a2 where
    n: "neighbor_conflicts c1 ns (AList.update variable x a) = Inr (k1, a2)"
    by (auto simp: count_conflicts_def Let_def split: sum.splits)
  from neighbor_conflicts_Inr [OF n] have a2: "a2 = AList.update variable x a" .
  from assms g n a2 have "c' = c1" "a' = AList.delete variable a"
    by (auto simp: count_conflicts_def Let_def py_del_update)
  with neighbors_getitem_eq [OF g] show ?thesis by simp
qed

lemma count_conflicts_Inl:
  assumes "count_conflicts c variable x a = Inl e"
  shows "\<exists>n \<in> set (neighbor_list c variable).
           n \<noteq> variable \<and> n \<notin> keys a \<and> domains c n = None \<and> e = KeyError n"
proof -
  obtain ns c1 where g: "neighbors_getitem c variable = (ns, c1)"
    by (cases "neighbors_getitem c variable")
  note g' = neighbors_getitem_eq [OF g]
  show ?thesis
  proof (cases "neighbor_conflicts c1 ns (AList.update variable x a)")
    case (Inl e')
    with assms g have "e' = e" by (simp add: count_conflicts_def Let_def)
    with neighbor_conflicts_Inl [OF Inl] g' only_defaulted_fields(2) [of c c1] show ?thesis
      by (auto simp: keys_update)
  next
    case (Inr p)
    obtain k1 a2 where p: "p = (k1, a2)" by (cases p)
    from neighbor_conflicts_Inr [OF Inr [unfolded p]] have "a2 = AList.update variable x a" .
    with assms g Inr p show ?thesis
      by (simp add: count_conflicts_def Let_def py_del_update)
  qed
qed

lemma count_conflicts_total:
  assumes "\<forall>n \<in> set (neighbor_list c variable). n \<noteq> variable \<and> n \<notin> keys a \<longrightarrow> domains c n \<noteq> None"
  shows "\<exists>k c'. count_conflicts c variable x a = Inr (k, c', AList.delete variable a)"
proof -
  obtain ns c1 where g: "neighbors_getitem c variable = (ns, c1)"
    by (cases "neighbors_getitem c variable")
  note g' = neighbors_getitem_eq [OF g]
  have "\<forall>n \<in> set ns. n \<notin> keys (AList.update variable x a) \<longrightarrow> domains c1 n \<noteq> None"
    using assms g' only_defaulted_fields(2) [of c c1] by (simp add: keys_update)
  from neighbor_conflicts_total [OF this] obtain k where
    "neighbor_conflicts c1 ns (AList.update variable x a) = Inr (k, AList.update variable x a)" ..
  with g show ?thesis by (simp add: count_conflicts_def Let_def py_del_update)
qed

lemma count_conflicts_raises:
  assumes "n \<in> set (neighbor_list c variable)" "n \<noteq> variable" "n \<notin> keys a" "domains c n = None"
  shows "\<exists>e. count_conflicts c variable x a = Inl e"
proof -
  obtain ns c1 where g: "neighbors_getitem c variable = (ns, c1)"
    by (cases "neighbors_getitem c variable")
  note g' = neighbors_getitem_eq [OF g]
  have "n \<in> set ns" "n \<notin> keys (AList.update variable x a)" "domains c1 n = None"
    using assms g' only_defaulted_fields(2) [of c c1] by (simp_all add: keys_update)
  from neighbor_conflicts_raises [OF this] obtain e where
    "neighbor_conflicts c1 ns (AList.update variable x a) = Inl e" ..
  with g show ?thesis by (simp add: count_conflicts_def Let_def)
qed

lemma conflict_counts_Inr:
  "conflict_counts c variable xs a = Inr (ks, c', a') \<Longrightarrow> variable \<notin> keys a \<Longrightarrow>
     only_defaulted c c' \<and> a' = a \<and> map fst ks = xs"
proof (induction xs arbitrary: c ks)
  case Nil
  then show ?case by (simp add: only_defaulted_refl)
next
  case (Cons x xs)
  from Cons.prems(1) obtain k c1 a1 where cc: "count_conflicts c variable x a = Inr (k, c1, a1)"
    by (auto split: sum.splits)
  from count_conflicts_Inr [OF cc] Cons.prems(2) have c1: "only_defaulted c c1" and a1: "a1 = a"
    by (simp_all add: keys_def)
  from Cons.prems(1) cc a1 obtain ks1 where
    r: "conflict_counts c1 variable xs a = Inr (ks1, c', a')" and ks: "ks = (x, k) # ks1"
    by (auto split: sum.splits)
  from Cons.IH [OF r Cons.prems(2)] c1 ks only_defaulted_trans show ?case by auto
qed

lemma conflict_counts_Inl:
  "conflict_counts c variable xs a = Inl e \<Longrightarrow> variable \<notin> keys a \<Longrightarrow>
     \<exists>n \<in> set (neighbor_list c variable).
        n \<noteq> variable \<and> n \<notin> keys a \<and> domains c n = None \<and> e = KeyError n"
proof (induction xs arbitrary: c)
  case Nil
  then show ?case by simp
next
  case (Cons x xs)
  show ?case
  proof (cases "count_conflicts c variable x a")
    case (Inl e')
    with Cons.prems(1) have "e' = e" by simp
    with count_conflicts_Inl Inl show ?thesis by blast
  next
    case (Inr p)
    obtain k c1 a1 where p: "p = (k, c1, a1)" by (cases p)
    from count_conflicts_Inr [OF Inr [unfolded p]] Cons.prems(2)
    have c1: "only_defaulted c c1" and a1: "a1 = a"
      by (simp_all add: keys_def)
    from Cons.prems(1) Inr p a1 have "conflict_counts c1 variable xs a = Inl e"
      by (auto split: sum.splits)
    from Cons.IH [OF this Cons.prems(2)] only_defaulted_fields(2) [OF c1]
      only_defaulted_neighbor_list [OF c1] show ?thesis
      by simp
  qed
qed

lemma conflict_counts_total:
  "\<forall>n \<in> set (neighbor_list c variable). n \<noteq> variable \<and> n \<notin> keys a \<longrightarrow> domains c n \<noteq> None \<Longrightarrow>
   variable \<notin> keys a \<Longrightarrow>
     \<exists>ks c'. conflict_counts c variable xs a = Inr (ks, c', a)"
proof (induction xs arbitrary: c)
  case Nil
  show ?case by simp
next
  case (Cons x xs)
  have "AList.delete variable a = a" using Cons.prems(2) by (simp add: keys_def)
  with count_conflicts_total [OF Cons.prems(1), of x] obtain k c1 where
    cc: "count_conflicts c variable x a = Inr (k, c1, a)"
    by auto
  from count_conflicts_Inr [OF cc] have c1: "only_defaulted c c1" by simp
  have "\<forall>n \<in> set (neighbor_list c1 variable). n \<noteq> variable \<and> n \<notin> keys a \<longrightarrow> domains c1 n \<noteq> None"
    using Cons.prems(1) only_defaulted_fields(2) [OF c1] only_defaulted_neighbor_list [OF c1] by simp
  from Cons.IH [OF this Cons.prems(2)] obtain ks c' where
    "conflict_counts c1 variable xs a = Inr (ks, c', a)" by blast
  with cc show ?case by simp
qed

lemma conflict_counts_raises:
  assumes "n \<in> set (neighbor_list c variable)" "n \<noteq> variable" "n \<notin> keys a" "domains c n = None"
  shows "\<exists>e. conflict_counts c variable (x # xs) a = Inl e"
proof -
  from count_conflicts_raises [OF assms] obtain e where "count_conflicts c variable x a = Inl e" ..
  then show ?thesis by simp
qed

lemma order_values_Inr:
  assumes "order_values_by_least_conflicts c variable a = Inr (vals, c', a')"
    and "variable \<notin> keys a"
  shows "only_defaulted c c' \<and> a' = a \<and> (\<exists>d. domains c variable = Some d \<and> set vals = set d)"
proof -
  from assms(1) obtain d where d: "domains c variable = Some d"
    by (auto simp: order_values_by_least_conflicts_def split: option.splits)
  from assms(1) d obtain ks where
    r: "conflict_counts c variable d a = Inr (ks, c', a')" and v: "vals = map fst (sort_key snd ks)"
    by (auto simp: order_values_by_least_conflicts_def split: sum.splits)
  from conflict_counts_Inr [OF r assms(2)] have "only_defaulted c c'" "a' = a" "map fst ks = d"
    by simp_all
  moreover have "set vals = set (map fst ks)" using v by simp
  ultimately show ?thesis using d by simp
qed

lemma order_values_Inl:
  assumes "order_values_by_least_conflicts c variable a = Inl e"
    and "variable \<notin> keys a"
  shows "(domains c variable = None \<and> e = KeyError variable)
         \<or> (\<exists>n \<in> set (neighbor_list c variable).
               n \<noteq> variable \<and> n \<notin> keys a \<and> domains c n = None \<and> e = KeyError n)"
proof (cases "domains c variable")
  case None
  with assms(1) show ?thesis by (simp add: order_values_by_least_conflicts_def)
next
  case (Some d)
  with assms(1) have "conflict_counts c variable d a = Inl e"
    by (auto simp: order_values_by_least_conflicts_def split: sum.splits)
  from conflict_counts_Inl [OF this assms(2)] show ?thesis by simp
qed

lemma conflict_counts_only_defaulted:
  "conflict_counts c variable xs a = Inr (ks, c', a') \<Longrightarrow> only_defaulted c c'"
proof (induction xs arbitrary: c a ks)
  case Nil
  then show ?case by (simp add: only_defaulted_refl)
next
  case (Cons x xs)
  from Cons.prems obtain k c1 a1 where cc: "count_conflicts c variable x a = Inr (k, c1, a1)"
    by (auto split: sum.splits)
  with Cons.prems obtain ks1 where r: "conflict_counts c1 variable xs a1 = Inr (ks1, c', a')"
    by (auto split: sum.splits)
  from count_conflicts_Inr [OF cc] Cons.IH [OF r] show ?case
    by (blast intro: only_defaulted_trans)
qed

lemma order_values_only_defaulted:
  assumes "order_values_by_least_conflicts c variable a = Inr (vals, c', a')"
  shows "only_defaulted c c'"
proof -
  from assms obtain d ks where "conflict_counts c variable d a = Inr (ks, c', a')"
    by (auto simp: order_values_by_least_conflicts_def split: option.splits sum.splits)
  then show ?thesis by (rule conflict_counts_only_defaulted)
qed

lemma order_values_raises:
  assumes "domains c variable = Some (x # xs)"
    and "n \<in> set (neighbor_list c variable)" "n \<noteq> variable" "n \<notin> keys a" "domains c n = None"
  shows "\<exists>m. order_values_by_least_conflicts c variable a = Inl (KeyError m)
           \<and> m \<in> set (neighbor_list c variable) \<and> m \<notin> keys a \<and> domains c m = None"
proof -
  from count_conflicts_raises [OF assms(2-5), of x] obtain e where
    e: "count_conflicts c variable x a = Inl e" ..
  from count_conflicts_Inl [OF e] obtain m where
    "m \<in> set (neighbor_list c variable)" "m \<notin> keys a" "domains c m = None" "e = KeyError m"
    by blast
  moreover from e assms(1) have "order_values_by_least_conflicts c variable a = Inl e"
    by (simp add: order_values_by_least_conflicts_def)
  ultimately show ?thesis by blast
qed

subsection \<open>What the selection returns\<close>

lemma foldl_max_split:
  "\<exists>pre post. (x :: 'a \<times> nat) # xs
       = pre @ foldl (\<lambda>best y. if snd best < snd y then y else best) x xs # post
     \<and> (\<forall>y \<in> set pre. snd y < snd (foldl (\<lambda>best y. if snd best < snd y then y else best) x xs))
     \<and> (\<forall>y \<in> set post. snd y \<le> snd (foldl (\<lambda>best y. if snd best < snd y then y else best) x xs))"
proof (induction xs arbitrary: x)
  case Nil
  have "[x] = [] @ x # [] \<and> (\<forall>y \<in> set []. snd y < snd x) \<and> (\<forall>y \<in> set []. snd y \<le> snd x)"
    by simp
  then show ?case unfolding foldl_Nil by blast
next
  case (Cons y ys)
  let ?f = "\<lambda>best y :: 'a \<times> nat. if snd best < snd y then y else best"
  show ?case
  proof (cases "snd x < snd y")
    case True
    define m where "m = foldl ?f y ys"
    have res: "foldl ?f x (y # ys) = m" using True by (simp add: m_def)
    from Cons.IH [of y, folded m_def] obtain pre post where
      eq: "y # ys = pre @ m # post" and lt: "\<forall>z \<in> set pre. snd z < snd m"
      and le: "\<forall>z \<in> set post. snd z \<le> snd m" by blast
    have "y \<in> set (y # ys)" by simp
    then have "y \<in> set (pre @ m # post)" by (simp only: eq)
    with lt le have "snd y \<le> snd m" by auto
    with True have "snd x < snd m" by simp
    with lt have lt': "\<forall>z \<in> set (x # pre). snd z < snd m" by simp
    have "x # y # ys = (x # pre) @ m # post" by (simp add: eq)
    with lt' le show ?thesis unfolding res by blast
  next
    case False
    define m where "m = foldl ?f x ys"
    have res: "foldl ?f x (y # ys) = m" using False by (simp add: m_def)
    from Cons.IH [of x, folded m_def] obtain pre post where
      eq: "x # ys = pre @ m # post" and lt: "\<forall>z \<in> set pre. snd z < snd m"
      and le: "\<forall>z \<in> set post. snd z \<le> snd m" by blast
    show ?thesis
    proof (cases pre)
      case Nil
      with eq have m: "m = x" and post: "post = ys" by simp_all
      from False le m post have "\<forall>z \<in> set (y # ys). snd z \<le> snd m" by simp
      moreover have "x # y # ys = [] @ m # (y # ys)" by (simp add: m)
      moreover have "\<forall>z \<in> set []. snd z < snd m" by simp
      ultimately show ?thesis unfolding res by blast
    next
      case (Cons z pre')
      with eq have z: "z = x" and ys: "ys = pre' @ m # post" by simp_all
      from lt Cons z have "snd x < snd m" by simp
      with False have "snd y < snd m" by simp
      with lt Cons z have lt': "\<forall>z \<in> set (x # y # pre'). snd z < snd m" by simp
      have "x # y # ys = (x # y # pre') @ m # post" by (simp add: ys)
      with lt' le show ?thesis unfolding res by blast
    qed
  qed
qed

lemma py_max_split:
  assumes "py_max ks = Inr v"
  shows "\<exists>pre k post. ks = pre @ (v, k) # post
     \<and> (\<forall>y \<in> set pre. snd y < k) \<and> (\<forall>y \<in> set post. snd y \<le> k)"
proof (cases ks)
  case Nil
  with assms show ?thesis by simp
next
  case (Cons x xs)
  let ?m = "foldl (\<lambda>best y. if snd best < snd y then y else best) x xs"
  from assms Cons have v: "v = fst ?m" by simp
  from foldl_max_split [of x xs] obtain pre post where
    "x # xs = pre @ ?m # post" "\<forall>y \<in> set pre. snd y < snd ?m" "\<forall>y \<in> set post. snd y \<le> snd ?m"
    by blast
  with Cons v have "ks = pre @ (v, snd ?m) # post
     \<and> (\<forall>y \<in> set pre. snd y < snd ?m) \<and> (\<forall>y \<in> set post. snd y \<le> snd ?m)"
    by simp
  then show ?thesis by blast
qed

lemma insort_key_decorated:
  "insort_key snd (v, g v) (map (\<lambda>u. (u, g u)) xs) = map (\<lambda>u. (u, g u)) (insort_key g v xs)"
  by (induction xs) simp_all

lemma sort_key_decorated:
  "sort_key snd (map (\<lambda>u. (u, g u)) xs) = map (\<lambda>u. (u, g u)) (sort_key g xs)"
  by (induction xs) (simp_all add: insort_key_decorated)

lemma select_next_variable_spec:
  assumes "select_next_variable c a = Inr (v, c')"
  shows "v \<in> set (unassigned_vars c a)
    \<and> (\<forall>u \<in> set (unassigned_vars c a). length (neighbor_list c u) \<le> length (neighbor_list c v))
    \<and> (\<forall>u \<in> set (unassigned_vars c a).
          length (neighbor_list c u) = length (neighbor_list c v) \<longrightarrow>
          length (the (domains c v)) \<le> length (the (domains c u)))"
proof -
  let ?U = "unassigned_vars c a"
  let ?size = "\<lambda>u. length (the (domains c u))"
  let ?deg = "\<lambda>u. length (neighbor_list c u)"
  let ?L = "sort_key ?size ?U"
  from assms obtain ks where ks: "domain_sizes c ?U = Inr ks"
    by (auto simp: select_next_variable_def Let_def split: sum.splits)
  from domain_sizes_Inr [OF ks] have ks_eq: "ks = map (\<lambda>u. (u, ?size u)) ?U" by simp
  have L: "map fst (sort_key snd ks) = ?L"
    unfolding ks_eq sort_key_decorated by (simp add: comp_def)
  obtain ds c1 where ds: "degrees c ?L = (ds, c1)" by (cases "degrees c ?L")
  from assms ks ds L have m: "py_max ds = Inr v"
    by (auto simp: select_next_variable_def Let_def split: sum.splits)
  from degrees_eq [OF ds] have ds_eq: "ds = map (\<lambda>u. (u, ?deg u)) ?L" by simp
  from py_max_split [OF m] obtain pre k post where
    split: "ds = pre @ (v, k) # post" and lt: "\<forall>y \<in> set pre. snd y < k"
    and le: "\<forall>y \<in> set post. snd y \<le> k" by blast
  from split ds_eq have "map (\<lambda>u. (u, ?deg u)) ?L = pre @ (v, k) # post" by simp
  then obtain L1 L2 where L_eq: "?L = L1 @ v # L2" and pre: "pre = map (\<lambda>u. (u, ?deg u)) L1"
    and k: "k = ?deg v" and post: "post = map (\<lambda>u. (u, ?deg u)) L2"
    by (auto simp: map_eq_append_conv map_eq_Cons_conv)
  from lt pre k have lt1: "\<forall>u \<in> set L1. ?deg u < ?deg v" by simp
  from le post k have le2: "\<forall>u \<in> set L2. ?deg u \<le> ?deg v" by simp
  have "sorted (map ?size ?L)" by (rule sorted_sort_key)
  then have sz: "\<forall>u \<in> set L2. ?size v \<le> ?size u"
    unfolding L_eq by (simp add: sorted_append)
  have U: "set ?U = set L1 \<union> {v} \<union> set L2"
    using set_sort [of ?size ?U] unfolding L_eq by auto
  have 1: "v \<in> set ?U" using U by simp
  have 2: "\<forall>u \<in> set ?U. ?deg u \<le> ?deg v"
    using U lt1 le2 by (auto simp: less_imp_le)
  have 3: "\<forall>u \<in> set ?U. ?deg u = ?deg v \<longrightarrow> ?size v \<le> ?size u"
    using U lt1 sz by auto
  from 1 2 3 show ?thesis by blast
qed

lemma domain_sizes_raises:
  assumes "v \<in> set vs" "domains c v = None"
  shows "\<exists>m. domain_sizes c vs = Inl (KeyError m) \<and> m \<in> set vs \<and> domains c m = None"
proof (cases "domain_sizes c vs")
  case (Inl e)
  from domain_sizes_Inl [OF Inl] Inl show ?thesis by blast
next
  case (Inr ks)
  from domain_sizes_Inr [OF Inr] assms show ?thesis by blast
qed

lemma select_next_variable_raises:
  assumes "v \<in> set (unassigned_vars c a)" "domains c v = None"
  shows "\<exists>m. select_next_variable c a = Inl (KeyError m)
           \<and> m \<in> set (unassigned_vars c a) \<and> domains c m = None"
proof -
  from domain_sizes_raises [OF assms] obtain m where
    "domain_sizes c (unassigned_vars c a) = Inl (KeyError m)"
    "m \<in> set (unassigned_vars c a)" "domains c m = None" by blast
  then show ?thesis by (auto simp: select_next_variable_def Let_def)
qed

section \<open>The search\<close>

lemma step_preserves_frame:
  "only_defaulted c c' \<Longrightarrow> step_preserves c I \<Longrightarrow> step_preserves c' I"
  by (simp add: step_preserves_def only_defaulted_def)

lemma is_assignment_valid_fresh:
  "variable \<notin> keys a \<Longrightarrow>
     is_assignment_valid c variable x a
       = (check_constraints (constraints c) variable (AList.update variable x a), a)"
  by (simp add: is_assignment_valid_def Let_def delete_update_fresh)

lemma try_values_post:
  "\<forall>c1 x r c2 a2. only_defaulted c c1 \<longrightarrow> x \<in> set xs \<longrightarrow> I (AList.update variable x a) \<longrightarrow>
      rec c1 (AList.update variable x a) = Some (Inr (r, c2, a2)) \<longrightarrow>
      rb_post I c1 (AList.update variable x a) r c2 a2 \<Longrightarrow>
   \<forall>x \<in> set xs. check_constraints (constraints c) variable (AList.update variable x a) \<longrightarrow>
      I (AList.update variable x a) \<Longrightarrow>
   variable \<notin> keys a \<Longrightarrow>
   try_values rec variable xs c a = Some (Inr (r, c', a')) \<Longrightarrow>
     only_defaulted c c'
     \<and> (r = None \<and> a' = a
        \<or> truthy r \<and> (\<exists>s. r = Some s \<and> s = a' \<and> I s \<and> length s = length (variables c)))"
proof (induction xs arbitrary: c)
  case Nil
  then show ?case by (simp add: only_defaulted_refl)
next
  case (Cons x xs)
  note rec = Cons.prems(1) and step = Cons.prems(2) and fresh = Cons.prems(3) and res = Cons.prems(4)
  let ?a1 = "AList.update variable x a"
  let ?ok = "check_constraints (constraints c) variable ?a1"
  have valid: "is_assignment_valid c variable x a = (?ok, a)"
    using fresh by (rule is_assignment_valid_fresh)
  have rest: "only_defaulted c c1 \<Longrightarrow> try_values rec variable xs c1 a = Some (Inr (r, c', a')) \<Longrightarrow>
      only_defaulted c1 c'
      \<and> (r = None \<and> a' = a
        \<or> truthy r \<and> (\<exists>s. r = Some s \<and> s = a' \<and> I s \<and> length s = length (variables c1)))" for c1
  proof -
    assume od: "only_defaulted c c1" and r1: "try_values rec variable xs c1 a = Some (Inr (r, c', a'))"
    have 1: "\<forall>c2 x r c3 a2. only_defaulted c1 c2 \<longrightarrow> x \<in> set xs \<longrightarrow> I (AList.update variable x a) \<longrightarrow>
        rec c2 (AList.update variable x a) = Some (Inr (r, c3, a2)) \<longrightarrow>
        rb_post I c2 (AList.update variable x a) r c3 a2"
    proof (intro allI impI)
      fix c2 y r1 c3 a2
      assume h: "only_defaulted c1 c2" "y \<in> set xs" "I (AList.update variable y a)"
        "rec c2 (AList.update variable y a) = Some (Inr (r1, c3, a2))"
      from od h(1) have "only_defaulted c c2" by (rule only_defaulted_trans)
      moreover from h(2) have "y \<in> set (x # xs)" by simp
      ultimately show "rb_post I c2 (AList.update variable y a) r1 c3 a2"
        using rec [rule_format, of c2 y r1 c3 a2] h(3,4) by blast
    qed
    have 2: "\<forall>x \<in> set xs. check_constraints (constraints c1) variable (AList.update variable x a) \<longrightarrow>
        I (AList.update variable x a)"
      using step only_defaulted_fields(3) [OF od] by simp
    from Cons.IH [OF 1 2 fresh r1] show ?thesis .
  qed
  show ?case
  proof (cases ?ok)
    case False
    with res valid have "try_values rec variable xs c a = Some (Inr (r, c', a'))" by simp
    from rest [OF only_defaulted_refl this] show ?thesis .
  next
    case True
    with step have I1: "I ?a1" by simp
    have unfold: "try_values rec variable (x # xs) c a =
        (case rec c ?a1 of
           None \<Rightarrow> None
         | Some (Inl e) \<Rightarrow> Some (Inl e)
         | Some (Inr (result, c1, a2)) \<Rightarrow>
             if truthy result then Some (Inr (result, c1, a2))
             else (case py_del variable a2 of
                     Inl e \<Rightarrow> Some (Inl e)
                   | Inr a3 \<Rightarrow> try_values rec variable xs c1 a3))"
      using valid True by simp
    from res unfold obtain result c1 a2 where
      call: "rec c ?a1 = Some (Inr (result, c1, a2))"
      by (cases "rec c ?a1") (auto split: sum.splits)
    have "x \<in> set (x # xs)" by simp
    with rec [rule_format, of c x result c1 a2] only_defaulted_refl [of c] I1 call
    have post: "rb_post I c ?a1 result c1 a2"
      by blast
    then have od1: "only_defaulted c c1" by (simp add: rb_post_def)
    show ?thesis
    proof (cases "truthy result")
      case t: True
      with res unfold call have "r = result" "c' = c1" "a' = a2" by simp_all
      with post t show ?thesis by (cases result) (auto simp: rb_post_def)
    next
      case f: False
      with post have "a2 = ?a1" by (simp add: rb_post_def)
      moreover have "py_del variable ?a1 = Inr a"
        using fresh by (simp add: py_del_update keys_def)
      ultimately have "try_values rec variable xs c1 a = Some (Inr (r, c', a'))"
        using res unfold call f by simp
      from rest [OF od1 this] have "only_defaulted c1 c'"
        and "r = None \<and> a' = a
          \<or> truthy r \<and> (\<exists>s. r = Some s \<and> s = a' \<and> I s \<and> length s = length (variables c1))"
        by simp_all
      with od1 only_defaulted_trans [OF od1] only_defaulted_fields(1) [OF od1]
      show ?thesis by simp
    qed
  qed
qed

lemma unassigned_vars_mem:
  "v \<in> set (unassigned_vars c a) \<longleftrightarrow> v \<in> set (variables c) \<and> v \<notin> keys a"
  by (simp add: unassigned_vars_def)

lemma recursive_backtracking_Suc_cases:
  assumes "recursive_backtracking (Suc n) c a = Some (Inr (r, c', a'))"
  obtains (complete) "length a = length (variables c)" "r = Some a" "c' = c" "a' = a"
  | (search) variable c1 vals c2 a1 where
      "length a \<noteq> length (variables c)"
      "select_next_variable c a = Inr (variable, c1)"
      "order_values_by_least_conflicts c1 variable a = Inr (vals, c2, a1)"
      "try_values (recursive_backtracking n) variable vals c2 a1 = Some (Inr (r, c', a'))"
proof (cases "length a = length (variables c)")
  case True
  with assms have "r = Some a" "c' = c" "a' = a" by auto
  with True show ?thesis by (rule complete)
next
  case False
  with assms obtain variable c1 where s: "select_next_variable c a = Inr (variable, c1)"
    by (cases "select_next_variable c a") auto
  with assms False obtain vals c2 a1 where
    o: "order_values_by_least_conflicts c1 variable a = Inr (vals, c2, a1)"
    by (cases "order_values_by_least_conflicts c1 variable a") auto
  with assms False s have
    "try_values (recursive_backtracking n) variable vals c2 a1 = Some (Inr (r, c', a'))"
    by simp
  with False s o show ?thesis by (rule search)
qed

lemma recursive_backtracking_post:
  "step_preserves c I \<Longrightarrow> I a \<Longrightarrow> recursive_backtracking n c a = Some (Inr (r, c', a')) \<Longrightarrow>
     rb_post I c a r c' a'"
proof (induction n arbitrary: c a r c' a')
  case 0
  then show ?case by simp
next
  case (Suc n)
  from Suc.prems(3) show ?case
  proof (cases rule: recursive_backtracking_Suc_cases)
    case complete
    with Suc.prems(2) show ?thesis by (simp add: rb_post_def only_defaulted_refl)
  next
    case (search variable c1 vals c2 a1)
    from select_next_variable_Inr [OF search(2)]
    have var: "variable \<in> set (variables c)" and fresh: "variable \<notin> keys a"
      and od1: "only_defaulted c c1"
      by (simp_all add: unassigned_vars_mem)
    from order_values_Inr [OF search(3) fresh] obtain d where
      od2: "only_defaulted c1 c2" and a1: "a1 = a"
      and d: "domains c1 variable = Some d" and vals: "set vals = set d"
      by blast
    from od1 od2 have od: "only_defaulted c c2" by (rule only_defaulted_trans)
    have dom: "domains c variable = Some d"
      using d only_defaulted_fields(2) [OF od1] by simp
    have 1: "\<forall>c3 x r c4 a2. only_defaulted c2 c3 \<longrightarrow> x \<in> set vals \<longrightarrow>
        I (AList.update variable x a) \<longrightarrow>
        recursive_backtracking n c3 (AList.update variable x a) = Some (Inr (r, c4, a2)) \<longrightarrow>
        rb_post I c3 (AList.update variable x a) r c4 a2"
    proof (intro allI impI)
      fix c3 x r c4 a2
      assume h: "only_defaulted c2 c3" "I (AList.update variable x a)"
        "recursive_backtracking n c3 (AList.update variable x a) = Some (Inr (r, c4, a2))"
      from od h(1) have "only_defaulted c c3" by (rule only_defaulted_trans)
      then have "step_preserves c3 I" using Suc.prems(1) by (rule step_preserves_frame)
      from Suc.IH [OF this h(2,3)] show "rb_post I c3 (AList.update variable x a) r c4 a2" .
    qed
    have 2: "\<forall>x \<in> set vals. check_constraints (constraints c2) variable (AList.update variable x a) \<longrightarrow>
        I (AList.update variable x a)"
      using Suc.prems(1,2) var fresh dom vals only_defaulted_fields(3) [OF od]
      unfolding step_preserves_def by auto
    from try_values_post [OF 1 2 fresh search(4) [unfolded a1]]
    have "only_defaulted c2 c'"
      and "r = None \<and> a' = a
        \<or> truthy r \<and> (\<exists>s. r = Some s \<and> s = a' \<and> I s \<and> length s = length (variables c2))"
      by simp_all
    with only_defaulted_trans [OF od] only_defaulted_fields(1) [OF od]
    show ?thesis by (auto simp: rb_post_def)
  qed
qed

lemma consistent_update:
  assumes "consistent c a" "variable \<notin> keys a"
    and "check_constraints (constraints c) variable (AList.update variable x a)"
  shows "consistent c (AList.update variable x a)"
  unfolding consistent_def
proof (intro ballI impI)
  fix p
  assume p: "p \<in> set (constraints c)"
    and sub: "set (fst p) \<subseteq> keys (AList.update variable x a)"
  show "snd p (map (\<lambda>v. the (map_of (AList.update variable x a) v)) (fst p))"
  proof (cases "variable \<in> set (fst p)")
    case True
    with assms(3) p sub show ?thesis unfolding check_constraints_iff by blast
  next
    case False
    with sub have sub': "set (fst p) \<subseteq> keys a" by (auto simp: keys_update)
    have "map (\<lambda>v. the (map_of (AList.update variable x a) v)) (fst p)
        = map (\<lambda>v. the (map_of a v)) (fst p)"
      using False by (auto simp: update_conv')
    moreover from assms(1) p sub' have "snd p (map (\<lambda>v. the (map_of a v)) (fst p))"
      by (simp add: consistent_def)
    ultimately show ?thesis by (simp only:)
  qed
qed

lemma partial_assignment_update:
  "partial_assignment c a \<Longrightarrow> variable \<in> set (variables c) \<Longrightarrow>
     partial_assignment c (AList.update variable x a)"
  by (simp add: partial_assignment_def keys_update distinct_update)

lemma step_preserves_consistent:
  "step_preserves c (\<lambda>a. consistent c a \<and> partial_assignment c a)"
  unfolding step_preserves_def
  using consistent_update partial_assignment_update by blast

lemma partial_assignment_Nil: "partial_assignment c []"
  by (simp add: partial_assignment_def keys_def)

lemma partial_assignment_complete:
  assumes "partial_assignment c s" "length s = length (variables c)"
  shows "keys s = set (variables c) \<and> distinct (variables c)"
proof -
  from assms(1) have d: "distinct (map fst s)" and sub: "keys s \<subseteq> set (variables c)"
    by (simp_all add: partial_assignment_def)
  from d have "card (keys s) = length s"
    unfolding keys_def using distinct_card [of "map fst s"] by simp
  with assms(2) have c: "card (keys s) = length (variables c)" by simp
  have le: "card (set (variables c)) \<le> length (variables c)" by (rule card_length)
  from sub have "card (keys s) \<le> card (set (variables c))" by (simp add: card_mono)
  with c le have eq: "card (keys s) = card (set (variables c))"
    and full: "card (set (variables c)) = length (variables c)" by simp_all
  from sub eq have "keys s = set (variables c)" by (simp add: card_subset_eq)
  moreover from full have "distinct (variables c)" by (simp add: card_distinct)
  ultimately show ?thesis by simp
qed

lemma consistent_Nil:
  "\<forall>p \<in> set (constraints c). fst p \<noteq> [] \<Longrightarrow> consistent c []"
  by (auto simp: consistent_def keys_def)

lemma step_preserves_True: "step_preserves c (\<lambda>a. True)"
  by (simp add: step_preserves_def)

lemma recursive_backtracking_restores:
  assumes "recursive_backtracking n c a = Some (Inr (r, c', a'))"
  shows "only_defaulted c c' \<and> (\<not> truthy r \<longrightarrow> a' = a)"
  using recursive_backtracking_post [OF step_preserves_True TrueI assms]
  by (simp add: rb_post_def)

lemma loop_calls_step:
  assumes "loop_calls rec variable xs c a c' a'"
    and "variable \<notin> keys a"
    and "\<forall>c1 x r c2 a2. rec c1 (AList.update variable x a) = Some (Inr (r, c2, a2)) \<longrightarrow>
           only_defaulted c1 c2 \<and> (\<not> truthy r \<longrightarrow> a2 = AList.update variable x a)"
  shows "only_defaulted c c'
         \<and> (\<exists>x \<in> set xs. a' = AList.update variable x a
              \<and> check_constraints (constraints c) variable (AList.update variable x a))"
  using assms
proof (induction rule: loop_calls.induct)
  case (accepted c x a a1 xs)
  from accepted(1) is_assignment_valid_fresh [OF accepted(2), of c x]
  have "a1 = a" "check_constraints (constraints c) variable (AList.update variable x a)"
    by auto
  then show ?case by (simp add: only_defaulted_refl)
next
  case (after_rejected c x a a1 xs c' a')
  from after_rejected(1) is_assignment_valid_fresh [OF after_rejected(4), of c x]
  have "a1 = a" by simp
  with after_rejected.IH after_rejected.prems show ?case by simp
next
  case (after_failed c x a a1 result c1 a2 a3 xs c' a')
  from after_failed(1) is_assignment_valid_fresh [OF after_failed.prems(1), of c x]
  have a1: "a1 = a" by simp
  from after_failed.prems(2) after_failed(2) after_failed(3) a1
  have od: "only_defaulted c c1" and a2: "a2 = AList.update variable x a"
    by blast+
  from after_failed(4) a2 after_failed.prems(1) have a3: "a3 = a"
    by (simp add: py_del_update keys_def)
  from after_failed.IH [unfolded a3, OF after_failed.prems]
  have "only_defaulted c1 c'"
    and "\<exists>x \<in> set xs. a' = AList.update variable x a
           \<and> check_constraints (constraints c1) variable (AList.update variable x a)"
    by simp_all
  with only_defaulted_trans [OF od] only_defaulted_fields(3) [OF od] show ?case by simp
qed

lemma entered_invariant:
  assumes "entered c0 n c a" and "\<forall>p \<in> set (constraints c0). fst p \<noteq> []"
  shows "only_defaulted c0 c \<and> consistent c0 a \<and> partial_assignment c0 a"
  using assms
proof (induction rule: entered.induct)
  case top
  then show ?case by (simp add: only_defaulted_refl consistent_Nil partial_assignment_Nil)
next
  case (deeper n c a variable c1 vals c2 a1 c' a')
  from deeper.IH [OF deeper.prems] have od0: "only_defaulted c0 c"
    and con: "consistent c0 a" and pa: "partial_assignment c0 a" by simp_all
  from select_next_variable_Inr [OF deeper(3)]
  have var: "variable \<in> set (variables c)" and fresh: "variable \<notin> keys a"
    and od1: "only_defaulted c c1"
    by (simp_all add: unassigned_vars_mem)
  from order_values_Inr [OF deeper(4) fresh] have od2: "only_defaulted c1 c2" and a1: "a1 = a"
    by simp_all
  have rec: "\<forall>c1 x r c2 a2.
      recursive_backtracking n c1 (AList.update variable x a) = Some (Inr (r, c2, a2)) \<longrightarrow>
      only_defaulted c1 c2 \<and> (\<not> truthy r \<longrightarrow> a2 = AList.update variable x a)"
    using recursive_backtracking_restores by blast
  from loop_calls_step [OF deeper(5) [unfolded a1] fresh rec] obtain x where
    od3: "only_defaulted c2 c'" and a': "a' = AList.update variable x a"
    and chk: "check_constraints (constraints c2) variable (AList.update variable x a)"
    by blast
  from od0 od1 od2 have od02: "only_defaulted c0 c2" by (blast intro: only_defaulted_trans)
  from this od3 have "only_defaulted c0 c'" by (rule only_defaulted_trans)
  moreover from chk only_defaulted_fields(3) [OF od02]
  have "check_constraints (constraints c0) variable (AList.update variable x a)" by simp
  from consistent_update [OF con fresh this] a' have "consistent c0 a'" by simp
  moreover from var only_defaulted_fields(1) [OF od0] have "variable \<in> set (variables c0)" by simp
  from partial_assignment_update [OF pa this] a' have "partial_assignment c0 a'" by simp
  ultimately show ?case by simp
qed

subsection \<open>The fuel of \<open>solve\<close> is enough\<close>

lemma unassigned_vars_update:
  assumes "variable \<in> set (unassigned_vars c a)"
  shows "length (unassigned_vars c (AList.update variable x a)) < length (unassigned_vars c a)"
proof -
  have "unassigned_vars c (AList.update variable x a)
      = filter (\<lambda>v. v \<noteq> variable) (unassigned_vars c a)"
    by (auto simp: unassigned_vars_def keys_update intro: filter_cong)
  with length_filter_less [OF assms, of "\<lambda>v. v \<noteq> variable"] show ?thesis by simp
qed

lemma try_values_not_None:
  "variable \<notin> keys a \<Longrightarrow>
   \<forall>c1 x. only_defaulted c c1 \<longrightarrow> x \<in> set xs \<longrightarrow>
      rec c1 (AList.update variable x a) \<noteq> None
      \<and> (\<forall>r c2 a2. rec c1 (AList.update variable x a) = Some (Inr (r, c2, a2)) \<longrightarrow>
            only_defaulted c1 c2 \<and> (\<not> truthy r \<longrightarrow> a2 = AList.update variable x a)) \<Longrightarrow>
   try_values rec variable xs c a \<noteq> None"
proof (induction xs arbitrary: c)
  case Nil
  show ?case by simp
next
  case (Cons x xs)
  note fresh = Cons.prems(1) and rec = Cons.prems(2)
  let ?a1 = "AList.update variable x a"
  let ?ok = "check_constraints (constraints c) variable ?a1"
  have valid: "is_assignment_valid c variable x a = (?ok, a)"
    using fresh by (rule is_assignment_valid_fresh)
  have rest: "try_values rec variable xs c1 a \<noteq> None" if od: "only_defaulted c c1" for c1
  proof (rule Cons.IH [OF fresh], intro allI impI)
    fix c2 y
    assume h: "only_defaulted c1 c2" "y \<in> set xs"
    from od h(1) have "only_defaulted c c2" by (rule only_defaulted_trans)
    moreover from h(2) have "y \<in> set (x # xs)" by simp
    ultimately show "rec c2 (AList.update variable y a) \<noteq> None
      \<and> (\<forall>r c3 a2. rec c2 (AList.update variable y a) = Some (Inr (r, c3, a2)) \<longrightarrow>
            only_defaulted c2 c3 \<and> (\<not> truthy r \<longrightarrow> a2 = AList.update variable y a))"
      using rec [rule_format, of c2 y] by blast
  qed
  show ?case
  proof (cases ?ok)
    case False
    with valid rest [OF only_defaulted_refl] show ?thesis by simp
  next
    case True
    have unfold: "try_values rec variable (x # xs) c a =
        (case rec c ?a1 of
           None \<Rightarrow> None
         | Some (Inl e) \<Rightarrow> Some (Inl e)
         | Some (Inr (result, c1, a2)) \<Rightarrow>
             if truthy result then Some (Inr (result, c1, a2))
             else (case py_del variable a2 of
                     Inl e \<Rightarrow> Some (Inl e)
                   | Inr a3 \<Rightarrow> try_values rec variable xs c1 a3))"
      using valid True by simp
    have "x \<in> set (x # xs)" by simp
    with rec [rule_format, of c x] only_defaulted_refl [of c]
    have nn: "rec c ?a1 \<noteq> None"
      and post: "\<And>r c2 a2. rec c ?a1 = Some (Inr (r, c2, a2)) \<Longrightarrow>
            only_defaulted c c2 \<and> (\<not> truthy r \<longrightarrow> a2 = ?a1)"
      by blast+
    from nn obtain t where t: "rec c ?a1 = Some t" by auto
    show ?thesis
    proof (cases t)
      case (Inl e)
      with unfold t show ?thesis by simp
    next
      case (Inr p)
      obtain result c1 a2 where p: "p = (result, c1, a2)" by (cases p)
      show ?thesis
      proof (cases "truthy result")
        case True
        with unfold t Inr p show ?thesis by simp
      next
        case False
        from post [OF t [unfolded Inr p]] False have od: "only_defaulted c c1" and "a2 = ?a1"
          by simp_all
        moreover have "py_del variable ?a1 = Inr a"
          using fresh by (simp add: py_del_update keys_def)
        ultimately have "try_values rec variable (x # xs) c a = try_values rec variable xs c1 a"
          using unfold t Inr p False by simp
        with rest [OF od] show ?thesis by simp
      qed
    qed
  qed
qed

lemma recursive_backtracking_enough_fuel:
  "length (unassigned_vars c a) < n \<Longrightarrow> recursive_backtracking n c a \<noteq> None"
proof (induction n arbitrary: c a)
  case 0
  then show ?case by simp
next
  case (Suc n)
  show ?case
  proof (cases "length a = length (variables c)")
    case True
    then show ?thesis by simp
  next
    case False
    show ?thesis
    proof (cases "select_next_variable c a")
      case (Inl e)
      with False show ?thesis by simp
    next
      case (Inr p)
      obtain variable c1 where p: "p = (variable, c1)" by (cases p)
      from select_next_variable_Inr [OF Inr [unfolded p]]
      have mem: "variable \<in> set (unassigned_vars c a)" and od1: "only_defaulted c c1" by simp_all
      then have fresh: "variable \<notin> keys a" by (simp add: unassigned_vars_mem)
      show ?thesis
      proof (cases "order_values_by_least_conflicts c1 variable a")
        case (Inl e)
        with False Inr p show ?thesis by simp
      next
        case o: (Inr q)
        obtain vals c2 a1 where q: "q = (vals, c2, a1)" by (cases q)
        from order_values_Inr [OF o [unfolded q] fresh]
        have od2: "only_defaulted c1 c2" and a1: "a1 = a" by simp_all
        from od1 od2 have od: "only_defaulted c c2" by (rule only_defaulted_trans)
        have "try_values (recursive_backtracking n) variable vals c2 a \<noteq> None"
        proof (rule try_values_not_None [OF fresh], intro allI impI conjI)
          fix c3 x
          assume h: "only_defaulted c2 c3"
          from od h have "only_defaulted c c3" by (rule only_defaulted_trans)
          from only_defaulted_unassigned [OF this]
          have "length (unassigned_vars c3 (AList.update variable x a))
              = length (unassigned_vars c (AList.update variable x a))" by simp
          with unassigned_vars_update [OF mem, of x] Suc.prems
          have "length (unassigned_vars c3 (AList.update variable x a)) < n" by simp
          then show "recursive_backtracking n c3 (AList.update variable x a) \<noteq> None"
            by (rule Suc.IH)
        next
          fix c3 x r c4 a2
          assume "recursive_backtracking n c3 (AList.update variable x a) = Some (Inr (r, c4, a2))"
          from recursive_backtracking_restores [OF this]
          show "only_defaulted c3 c4" and "\<not> truthy r \<Longrightarrow> a2 = AList.update variable x a"
            by simp_all
        qed
        with False Inr p o q a1 show ?thesis by simp
      qed
    qed
  qed
qed

lemma unassigned_vars_Nil: "unassigned_vars c [] = variables c"
  by (simp add: unassigned_vars_def keys_def)

lemma solve_returns: "solve c \<noteq> None"
  unfolding solve_def by (rule recursive_backtracking_enough_fuel) (simp add: unassigned_vars_Nil)

subsection \<open>Runs that raise nothing\<close>

lemma try_values_returns:
  "variable \<notin> keys a \<Longrightarrow>
   \<forall>c1 x. only_defaulted c c1 \<longrightarrow> x \<in> set xs \<longrightarrow>
      check_constraints (constraints c) variable (AList.update variable x a) \<longrightarrow>
      (\<exists>r c2 a2. rec c1 (AList.update variable x a) = Some (Inr (r, c2, a2))
         \<and> only_defaulted c1 c2 \<and> (\<not> truthy r \<longrightarrow> a2 = AList.update variable x a)) \<Longrightarrow>
   \<exists>r c' a'. try_values rec variable xs c a = Some (Inr (r, c', a'))"
proof (induction xs arbitrary: c)
  case Nil
  show ?case by simp
next
  case (Cons x xs)
  note fresh = Cons.prems(1) and rec = Cons.prems(2)
  let ?a1 = "AList.update variable x a"
  let ?ok = "check_constraints (constraints c) variable ?a1"
  have valid: "is_assignment_valid c variable x a = (?ok, a)"
    using fresh by (rule is_assignment_valid_fresh)
  have rest: "\<exists>r c' a'. try_values rec variable xs c1 a = Some (Inr (r, c', a'))"
    if od: "only_defaulted c c1" for c1
  proof (rule Cons.IH [OF fresh], intro allI impI)
    fix c2 y
    assume h: "only_defaulted c1 c2" "y \<in> set xs"
      "check_constraints (constraints c1) variable (AList.update variable y a)"
    from od h(1) have "only_defaulted c c2" by (rule only_defaulted_trans)
    moreover from h(2) have "y \<in> set (x # xs)" by simp
    moreover from h(3) only_defaulted_fields(3) [OF od]
    have "check_constraints (constraints c) variable (AList.update variable y a)" by simp
    ultimately show "\<exists>r c3 a2. rec c2 (AList.update variable y a) = Some (Inr (r, c3, a2))
         \<and> only_defaulted c2 c3 \<and> (\<not> truthy r \<longrightarrow> a2 = AList.update variable y a)"
      using rec [rule_format, of c2 y] by blast
  qed
  show ?case
  proof (cases ?ok)
    case False
    with valid rest [OF only_defaulted_refl] show ?thesis by simp
  next
    case True
    have unfold: "try_values rec variable (x # xs) c a =
        (case rec c ?a1 of
           None \<Rightarrow> None
         | Some (Inl e) \<Rightarrow> Some (Inl e)
         | Some (Inr (result, c1, a2)) \<Rightarrow>
             if truthy result then Some (Inr (result, c1, a2))
             else (case py_del variable a2 of
                     Inl e \<Rightarrow> Some (Inl e)
                   | Inr a3 \<Rightarrow> try_values rec variable xs c1 a3))"
      using valid True by simp
    have "x \<in> set (x # xs)" by simp
    with rec [rule_format, of c x] only_defaulted_refl [of c] True
    obtain result c1 a2 where call: "rec c ?a1 = Some (Inr (result, c1, a2))"
      and od: "only_defaulted c c1" and undo: "\<not> truthy result \<longrightarrow> a2 = ?a1"
      by blast
    show ?thesis
    proof (cases "truthy result")
      case t: True
      with unfold call show ?thesis by simp
    next
      case f: False
      with undo have "a2 = ?a1" by simp
      moreover have "py_del variable ?a1 = Inr a"
        using fresh by (simp add: py_del_update keys_def)
      ultimately have "try_values rec variable (x # xs) c a = try_values rec variable xs c1 a"
        using unfold call f by simp
      with rest [OF od] show ?thesis by simp
    qed
  qed
qed

lemma recursive_backtracking_returns:
  "step_preserves c I \<Longrightarrow> I a \<Longrightarrow>
   \<forall>a. I a \<longrightarrow> length a \<noteq> length (variables c) \<longrightarrow> unassigned_vars c a \<noteq> [] \<Longrightarrow>
   \<forall>v \<in> set (variables c). domains c v \<noteq> None \<Longrightarrow>
   \<forall>v \<in> set (variables c). \<forall>n \<in> set (neighbor_list c v). domains c n \<noteq> None \<Longrightarrow>
   length (unassigned_vars c a) < n \<Longrightarrow>
     \<exists>r c' a'. recursive_backtracking n c a = Some (Inr (r, c', a'))"
proof (induction n arbitrary: c a)
  case 0
  then show ?case by simp
next
  case (Suc n)
  note sp = Suc.prems(1) and Ia = Suc.prems(2) and live = Suc.prems(3)
    and dom = Suc.prems(4) and ndom = Suc.prems(5) and fuel = Suc.prems(6)
  show ?case
  proof (cases "length a = length (variables c)")
    case True
    then show ?thesis by simp
  next
    case False
    with live Ia have ne: "unassigned_vars c a \<noteq> []" by simp
    have "\<exists>variable c1. select_next_variable c a = Inr (variable, c1)"
    proof (cases "select_next_variable c a")
      case (Inl e)
      from select_next_variable_Inl [OF Inl] ne dom show ?thesis
        by (auto simp: unassigned_vars_mem)
    next
      case (Inr p)
      then show ?thesis by (cases p) simp
    qed
    then obtain variable c1 where s: "select_next_variable c a = Inr (variable, c1)" by blast
    from select_next_variable_Inr [OF s]
    have mem: "variable \<in> set (unassigned_vars c a)" and od1: "only_defaulted c c1" by simp_all
    then have fresh: "variable \<notin> keys a" and var: "variable \<in> set (variables c)"
      by (simp_all add: unassigned_vars_mem)
    have "\<exists>vals c2 a1. order_values_by_least_conflicts c1 variable a = Inr (vals, c2, a1)"
    proof (cases "order_values_by_least_conflicts c1 variable a")
      case (Inl e)
      from order_values_Inl [OF Inl fresh] dom ndom var
        only_defaulted_fields(2) [OF od1] only_defaulted_neighbor_list [OF od1]
      show ?thesis by auto
    next
      case (Inr q)
      then show ?thesis by (cases q) auto
    qed
    then obtain vals c2 a1 where
      o: "order_values_by_least_conflicts c1 variable a = Inr (vals, c2, a1)" by blast
    from order_values_Inr [OF o fresh] obtain d where
      od2: "only_defaulted c1 c2" and a1: "a1 = a"
      and d: "domains c1 variable = Some d" and vals: "set vals = set d"
      by blast
    from od1 od2 have od: "only_defaulted c c2" by (rule only_defaulted_trans)
    have dv: "domains c variable = Some d"
      using d only_defaulted_fields(2) [OF od1] by simp
    have "\<exists>r c' a'. try_values (recursive_backtracking n) variable vals c2 a = Some (Inr (r, c', a'))"
    proof (rule try_values_returns [OF fresh], intro allI impI)
      fix c3 x
      assume h: "only_defaulted c2 c3" "x \<in> set vals"
        "check_constraints (constraints c2) variable (AList.update variable x a)"
      from od h(1) have od3: "only_defaulted c c3" by (rule only_defaulted_trans)
      from h(3) only_defaulted_fields(3) [OF od]
      have "check_constraints (constraints c) variable (AList.update variable x a)" by simp
      with sp Ia var fresh dv h(2) vals have I1: "I (AList.update variable x a)"
        unfolding step_preserves_def by blast
      have sp3: "step_preserves c3 I" using od3 sp by (rule step_preserves_frame)
      have live3: "\<forall>a. I a \<longrightarrow> length a \<noteq> length (variables c3) \<longrightarrow> unassigned_vars c3 a \<noteq> []"
        using live only_defaulted_fields(1) [OF od3] only_defaulted_unassigned [OF od3] by simp
      have dom3: "\<forall>v \<in> set (variables c3). domains c3 v \<noteq> None"
        using dom only_defaulted_fields(1,2) [OF od3] by simp
      have ndom3: "\<forall>v \<in> set (variables c3). \<forall>n \<in> set (neighbor_list c3 v). domains c3 n \<noteq> None"
        using ndom only_defaulted_fields(1,2) [OF od3] only_defaulted_neighbor_list [OF od3] by simp
      from only_defaulted_unassigned [OF od3]
      have "length (unassigned_vars c3 (AList.update variable x a))
          = length (unassigned_vars c (AList.update variable x a))" by simp
      with unassigned_vars_update [OF mem, of x] fuel
      have "length (unassigned_vars c3 (AList.update variable x a)) < n" by simp
      from Suc.IH [OF sp3 I1 live3 dom3 ndom3 this] obtain r c4 a2 where
        call: "recursive_backtracking n c3 (AList.update variable x a) = Some (Inr (r, c4, a2))"
        by blast
      from recursive_backtracking_restores [OF call] call
      show "\<exists>r c4 a2. recursive_backtracking n c3 (AList.update variable x a) = Some (Inr (r, c4, a2))
         \<and> only_defaulted c3 c4 \<and> (\<not> truthy r \<longrightarrow> a2 = AList.update variable x a)"
        by blast
    qed
    with False s o a1 show ?thesis by simp
  qed
qed

lemma set_update_subset: "set (AList.update k v a) \<subseteq> insert (k, v) (set a)"
  by (induction a) auto

lemma in_domains_update:
  "in_domains c a \<Longrightarrow> domains c variable = Some d \<Longrightarrow> x \<in> set d \<Longrightarrow>
     in_domains c (AList.update variable x a)"
  unfolding in_domains_def using set_update_subset [of variable x a] by auto

lemma step_preserves_in_domains:
  "step_preserves c (\<lambda>a. partial_assignment c a \<and> in_domains c a)"
  unfolding step_preserves_def
  using in_domains_update partial_assignment_update by blast

lemma in_domains_Nil: "in_domains c []"
  by (simp add: in_domains_def)

lemma in_domains_empty_domain:
  "in_domains c a \<Longrightarrow> domains c v = Some [] \<Longrightarrow> v \<notin> keys a"
  by (auto simp: in_domains_def keys_def)

lemma solve_empty_domain_aux:
  assumes dom: "\<forall>v \<in> set (variables c). domains c v \<noteq> None"
    and ndom: "\<forall>v \<in> set (variables c). \<forall>n \<in> set (neighbor_list c v). domains c n \<noteq> None"
    and v0: "v0 \<in> set (variables c)" "domains c v0 = Some []"
  shows "\<exists>c'. solve c = Some (Inr (None, c', []))"
proof -
  let ?I = "\<lambda>a. partial_assignment c a \<and> in_domains c a"
  have I0: "?I []" by (simp add: partial_assignment_Nil in_domains_Nil)
  have live: "\<forall>a. ?I a \<longrightarrow> length a \<noteq> length (variables c) \<longrightarrow> unassigned_vars c a \<noteq> []"
  proof (intro allI impI)
    fix a
    assume "?I a"
    with in_domains_empty_domain v0(2) have "v0 \<notin> keys a" by blast
    with v0(1) have "v0 \<in> set (unassigned_vars c a)" by (simp add: unassigned_vars_mem)
    then show "unassigned_vars c a \<noteq> []" by auto
  qed
  have fuel: "length (unassigned_vars c []) < Suc (length (variables c))"
    by (simp add: unassigned_vars_Nil)
  from recursive_backtracking_returns [OF step_preserves_in_domains I0 live dom ndom fuel]
  obtain r c' a' where res: "solve c = Some (Inr (r, c', a'))"
    unfolding solve_def by blast
  from recursive_backtracking_post [OF step_preserves_in_domains I0 res [unfolded solve_def]]
  have post: "rb_post ?I c [] r c' a'" .
  have "r = None"
  proof (cases r)
    case None
    then show ?thesis .
  next
    case (Some s)
    with post have s: "partial_assignment c s" "in_domains c s" "length s = length (variables c)"
      by (auto simp: rb_post_def)
    from partial_assignment_complete [OF s(1,3)] v0(1) have "v0 \<in> keys s" by simp
    with in_domains_empty_domain [OF s(2) v0(2)] show ?thesis by simp
  qed
  moreover with post have "a' = []" by (simp add: rb_post_def)
  ultimately show ?thesis using res by simp
qed

subsection \<open>No constraints\<close>

lemma unassigned_nonempty:
  assumes "partial_assignment c a" "distinct (variables c)" "length a \<noteq> length (variables c)"
  shows "unassigned_vars c a \<noteq> []"
proof
  assume "unassigned_vars c a = []"
  then have "set (variables c) \<subseteq> keys a"
    by (auto simp: unassigned_vars_def filter_empty_conv)
  with assms(1) have k: "keys a = set (variables c)" and d: "distinct (map fst a)"
    by (auto simp: partial_assignment_def)
  from d have "card (keys a) = length a"
    unfolding keys_def using distinct_card [of "map fst a"] by simp
  moreover from assms(2) have "card (set (variables c)) = length (variables c)"
    by (rule distinct_card)
  ultimately show False using k assms(3) by simp
qed

lemma count_conflicts_no_neighbors:
  assumes "neighbor_list c variable = []"
  shows "\<exists>c'. count_conflicts c variable x a = Inr (0, c', AList.delete variable a)
           \<and> only_defaulted c c'"
proof -
  obtain ns c1 where g: "neighbors_getitem c variable = (ns, c1)"
    by (cases "neighbors_getitem c variable")
  from neighbors_getitem_eq [OF g] assms have "ns = []" "only_defaulted c c1" by simp_all
  with g show ?thesis by (simp add: count_conflicts_def Let_def py_del_update)
qed

lemma conflict_counts_no_neighbors:
  "neighbor_list c variable = [] \<Longrightarrow> variable \<notin> keys a \<Longrightarrow>
     \<exists>c'. conflict_counts c variable xs a = Inr (map (\<lambda>x. (x, 0)) xs, c', a) \<and> only_defaulted c c'"
proof (induction xs arbitrary: c)
  case Nil
  show ?case by (simp add: only_defaulted_refl)
next
  case (Cons x xs)
  have del: "AList.delete variable a = a" using Cons.prems(2) by (simp add: keys_def)
  from count_conflicts_no_neighbors [OF Cons.prems(1), of x a] del obtain c1 where
    cc: "count_conflicts c variable x a = Inr (0, c1, a)" and od1: "only_defaulted c c1"
    by auto
  from only_defaulted_neighbor_list [OF od1, of variable] Cons.prems(1)
  have "neighbor_list c1 variable = []" by simp
  from Cons.IH [OF this Cons.prems(2)] obtain c' where
    r: "conflict_counts c1 variable xs a = Inr (map (\<lambda>x. (x, 0)) xs, c', a)"
    and od2: "only_defaulted c1 c'" by blast
  from od1 od2 have "only_defaulted c c'" by (rule only_defaulted_trans)
  with cc r show ?case by simp
qed

lemma sort_key_constant: "sort_key snd (map (\<lambda>x. (x, 0::nat)) xs) = map (\<lambda>x. (x, 0)) xs"
proof (rule sort_key_id_if_sorted)
  show "sorted (map snd (map (\<lambda>x. (x, 0::nat)) xs))"
    by (induction xs) simp_all
qed

lemma order_values_no_neighbors:
  assumes "neighbor_list c variable = []" "variable \<notin> keys a" "domains c variable = Some d"
  shows "\<exists>c'. order_values_by_least_conflicts c variable a = Inr (d, c', a) \<and> only_defaulted c c'"
proof -
  from conflict_counts_no_neighbors [OF assms(1,2), of d] obtain c' where
    "conflict_counts c variable d a = Inr (map (\<lambda>x. (x, 0)) d, c', a)" "only_defaulted c c'"
    by blast
  moreover have "map fst (sort_key snd (map (\<lambda>x. (x, 0::nat)) d)) = d"
    by (simp add: sort_key_constant comp_def)
  ultimately show ?thesis using assms(3)
    by (simp add: order_values_by_least_conflicts_def)
qed

lemma is_assignment_valid_no_constraints:
  "constraints c = [] \<Longrightarrow> variable \<notin> keys a \<Longrightarrow> is_assignment_valid c variable x a = (True, a)"
  by (simp add: is_assignment_valid_fresh)

lemma no_constraints_search:
  "constraints c = [] \<Longrightarrow> \<forall>v. neighbor_list c v = [] \<Longrightarrow> distinct (variables c) \<Longrightarrow>
   \<forall>v \<in> set (variables c). \<exists>d. domains c v = Some d \<and> d \<noteq> [] \<Longrightarrow>
   partial_assignment c a \<Longrightarrow> length (unassigned_vars c a) < n \<Longrightarrow>
     \<exists>s c'. recursive_backtracking n c a = Some (Inr (Some s, c', s))
       \<and> length s = length (variables c)
       \<and> (\<forall>v \<in> keys a. map_of s v = map_of a v)
       \<and> (\<forall>v \<in> set (variables c). v \<notin> keys a \<longrightarrow> map_of s v = Some (hd (the (domains c v))))"
proof (induction n arbitrary: c a)
  case 0
  then show ?case by simp
next
  case (Suc n)
  note free = Suc.prems(1) and nb = Suc.prems(2) and dist = Suc.prems(3)
    and dom = Suc.prems(4) and pa = Suc.prems(5) and fuel = Suc.prems(6)
  show ?case
  proof (cases "length a = length (variables c)")
    case True
    from partial_assignment_complete [OF pa True] have "keys a = set (variables c)" by simp
    with True show ?thesis by simp
  next
    case False
    from unassigned_nonempty [OF pa dist False] have ne: "unassigned_vars c a \<noteq> []" .
    have "\<exists>variable c1. select_next_variable c a = Inr (variable, c1)"
    proof (cases "select_next_variable c a")
      case (Inl e)
      from select_next_variable_Inl [OF Inl] ne dom show ?thesis
        by (fastforce simp: unassigned_vars_mem)
    next
      case (Inr p)
      then show ?thesis by (cases p) simp
    qed
    then obtain variable c1 where s: "select_next_variable c a = Inr (variable, c1)" by blast
    from select_next_variable_Inr [OF s]
    have mem: "variable \<in> set (unassigned_vars c a)" and od1: "only_defaulted c c1" by simp_all
    then have fresh: "variable \<notin> keys a" and var: "variable \<in> set (variables c)"
      by (simp_all add: unassigned_vars_mem)
    from dom var obtain x xs where d: "domains c variable = Some (x # xs)"
      by (metis list.exhaust)
    have "neighbor_list c1 variable = []" "domains c1 variable = Some (x # xs)"
      using nb d only_defaulted_neighbor_list [OF od1] only_defaulted_fields(2) [OF od1] by simp_all
    from order_values_no_neighbors [OF this(1) fresh this(2)] obtain c2 where
      o: "order_values_by_least_conflicts c1 variable a = Inr (x # xs, c2, a)"
      and od2: "only_defaulted c1 c2" by blast
    from od1 od2 have od: "only_defaulted c c2" by (rule only_defaulted_trans)
    note f = only_defaulted_fields [OF od]
    let ?a1 = "AList.update variable x a"
    have free2: "constraints c2 = []" using free f(3) by simp
    have nb2: "\<forall>v. neighbor_list c2 v = []" using nb only_defaulted_neighbor_list [OF od] by simp
    have dist2: "distinct (variables c2)" using dist f(1) by simp
    have dom2: "\<forall>v \<in> set (variables c2). \<exists>d. domains c2 v = Some d \<and> d \<noteq> []"
      using dom f(1,2) by simp
    have pa2: "partial_assignment c2 ?a1"
      using partial_assignment_update [OF pa var, of x] f(1) by (simp add: partial_assignment_def)
    have "length (unassigned_vars c2 ?a1) = length (unassigned_vars c ?a1)"
      using only_defaulted_unassigned [OF od] by simp
    with unassigned_vars_update [OF mem, of x] fuel
    have fuel2: "length (unassigned_vars c2 ?a1) < n" by simp
    from Suc.IH [OF free2 nb2 dist2 dom2 pa2 fuel2] obtain s c' where
      call: "recursive_backtracking n c2 ?a1 = Some (Inr (Some s, c', s))"
      and len: "length s = length (variables c2)"
      and old: "\<forall>v \<in> keys ?a1. map_of s v = map_of ?a1 v"
      and new: "\<forall>v \<in> set (variables c2). v \<notin> keys ?a1 \<longrightarrow> map_of s v = Some (hd (the (domains c2 v)))"
      by blast
    from len var f(1) have "s \<noteq> []" by auto
    with call is_assignment_valid_no_constraints [OF free2 fresh, of x]
    have "try_values (recursive_backtracking n) variable (x # xs) c2 a = Some (Inr (Some s, c', s))"
      by simp
    with False s o have res: "recursive_backtracking (Suc n) c a = Some (Inr (Some s, c', s))"
      by simp
    have 1: "\<forall>v \<in> keys a. map_of s v = map_of a v"
    proof
      fix v assume v: "v \<in> keys a"
      with fresh have "v \<noteq> variable" by auto
      with old v show "map_of s v = map_of a v" by (simp add: keys_update update_conv')
    qed
    have 2: "\<forall>v \<in> set (variables c). v \<notin> keys a \<longrightarrow> map_of s v = Some (hd (the (domains c v)))"
    proof (intro ballI impI)
      fix v assume v: "v \<in> set (variables c)" "v \<notin> keys a"
      show "map_of s v = Some (hd (the (domains c v)))"
      proof (cases "v = variable")
        case True
        with old d show ?thesis by (simp add: keys_update update_conv')
      next
        case False
        with new v f(1,2) show ?thesis by (simp add: keys_update)
      qed
    qed
    from res len f(1) 1 2 show ?thesis by simp
  qed
qed

lemma CSP_init_no_constraints:
  "CSP_init vs ds [] = \<lparr>variables = vs, domains = ds, constraints = [], neighbors = Map.empty\<rparr>"
  by (simp add: CSP_init_def create_constraint_graph_def)

subsection \<open>What a call returns reaches \<open>solve\<close>\<close>

lemma loop_calls_raise:
  "loop_calls rec variable xs c a c' a' \<Longrightarrow> rec c' a' = Some (Inl e) \<Longrightarrow>
     try_values rec variable xs c a = Some (Inl e)"
  by (induction rule: loop_calls.induct) simp_all

lemma loop_calls_found:
  "loop_calls rec variable xs c a c' a' \<Longrightarrow> rec c' a' = Some (Inr (r, c2, a2)) \<Longrightarrow> truthy r \<Longrightarrow>
     try_values rec variable xs c a = Some (Inr (r, c2, a2))"
  by (induction rule: loop_calls.induct) simp_all

lemma entered_raise:
  "entered c0 n c a \<Longrightarrow> recursive_backtracking n c a = Some (Inl e) \<Longrightarrow>
     solve c0 = Some (Inl e)"
proof (induction rule: entered.induct)
  case top
  then show ?case by (simp add: solve_def)
next
  case (deeper n c a variable c1 vals c2 a1 c' a')
  from loop_calls_raise [OF deeper(5) deeper.prems] deeper(2,3,4)
  have "recursive_backtracking (Suc n) c a = Some (Inl e)" by simp
  then show ?case by (rule deeper.IH)
qed

lemma entered_found:
  "entered c0 n c a \<Longrightarrow> recursive_backtracking n c a = Some (Inr (r, c2, a2)) \<Longrightarrow> truthy r \<Longrightarrow>
     solve c0 = Some (Inr (r, c2, a2))"
proof (induction rule: entered.induct)
  case top
  then show ?case by (simp add: solve_def)
next
  case (deeper n c a variable c1 vals c3 a1 c' a')
  from loop_calls_found [OF deeper(5) deeper.prems] deeper(2,3,4)
  have "recursive_backtracking (Suc n) c a = Some (Inr (r, c2, a2))" by simp
  from deeper.IH [OF this deeper.prems(2)] show ?case .
qed

lemma entered_only_defaulted: "entered c0 n c a \<Longrightarrow> only_defaulted c0 c"
proof (induction rule: entered.induct)
  case top
  show ?case by (rule only_defaulted_refl)
next
  case (deeper n c a variable c1 vals c2 a1 c' a')
  from select_next_variable_Inr [OF deeper(3)]
  have fresh: "variable \<notin> keys a" and od1: "only_defaulted c c1"
    by (simp_all add: unassigned_vars_mem)
  from order_values_Inr [OF deeper(4) fresh] have od2: "only_defaulted c1 c2" and a1: "a1 = a"
    by simp_all
  have rec: "\<forall>c1 x r c2 a2.
      recursive_backtracking n c1 (AList.update variable x a) = Some (Inr (r, c2, a2)) \<longrightarrow>
      only_defaulted c1 c2 \<and> (\<not> truthy r \<longrightarrow> a2 = AList.update variable x a)"
    using recursive_backtracking_restores by blast
  from loop_calls_step [OF deeper(5) [unfolded a1] fresh rec] have "only_defaulted c2 c'" by simp
  with deeper.IH od1 od2 show ?case by (blast intro: only_defaulted_trans)
qed

subsection \<open>More fuel changes nothing\<close>

lemma try_values_mono:
  "\<forall>c1 a1 t. rec c1 a1 = Some t \<longrightarrow> rec' c1 a1 = Some t \<Longrightarrow>
   try_values rec variable xs c a = Some t \<Longrightarrow> try_values rec' variable xs c a = Some t"
proof (induction xs arbitrary: c a)
  case Nil
  then show ?case by simp
next
  case (Cons x xs)
  obtain ok a1 where v: "is_assignment_valid c variable x a = (ok, a1)"
    by (cases "is_assignment_valid c variable x a")
  show ?case
  proof (cases ok)
    case False
    with Cons v show ?thesis by simp
  next
    case True
    let ?a = "AList.update variable x a1"
    from Cons.prems(2) v True obtain u where u: "rec c ?a = Some u"
      by (cases "rec c ?a") auto
    with Cons.prems(1) have u': "rec' c ?a = Some u" by simp
    show ?thesis
    proof (cases u)
      case (Inl e)
      with Cons.prems(2) v True u u' show ?thesis by auto
    next
      case (Inr p)
      obtain result c1 a2 where p: "p = (result, c1, a2)" by (cases p)
      show ?thesis
      proof (cases "truthy result")
        case t: True
        with Cons.prems(2) v True u u' Inr p show ?thesis by auto
      next
        case f: False
        show ?thesis
        proof (cases "py_del variable a2")
          case (Inl e)
          with Cons.prems(2) v True u u' Inr p f show ?thesis by auto
        next
          case d: (Inr a3)
          with Cons.prems(2) v True u Inr p f have "try_values rec variable xs c1 a3 = Some t"
            by simp
          from Cons.IH [OF Cons.prems(1) this] v True u' Inr p f d show ?thesis by simp
        qed
      qed
    qed
  qed
qed

lemma recursive_backtracking_Suc_mono:
  "recursive_backtracking n c a = Some t \<Longrightarrow> recursive_backtracking (Suc n) c a = Some t"
proof (induction n arbitrary: c a t)
  case 0
  then show ?case by simp
next
  case (Suc n)
  have ih: "\<forall>c1 a1 t. recursive_backtracking n c1 a1 = Some t \<longrightarrow>
      recursive_backtracking (Suc n) c1 a1 = Some t"
    using Suc.IH by blast
  show ?case
  proof (cases "length a = length (variables c)")
    case True
    with Suc.prems show ?thesis by simp
  next
    case False
    show ?thesis
    proof (cases "select_next_variable c a")
      case (Inl e)
      with Suc.prems False show ?thesis by simp
    next
      case (Inr p)
      obtain variable c1 where p: "p = (variable, c1)" by (cases p)
      show ?thesis
      proof (cases "order_values_by_least_conflicts c1 variable a")
        case (Inl e)
        with Suc.prems False Inr p show ?thesis by simp
      next
        case o: (Inr q)
        obtain vals c2 a1 where q: "q = (vals, c2, a1)" by (cases q)
        from Suc.prems False Inr p o q
        have "try_values (recursive_backtracking n) variable vals c2 a1 = Some t" by simp
        from try_values_mono [OF ih this] False Inr p o q
        show ?thesis by (simp del: recursive_backtracking.simps(2)
              add: recursive_backtracking.simps(2) [of "Suc n"])
      qed
    qed
  qed
qed

lemma recursive_backtracking_mono:
  "recursive_backtracking n c a = Some t \<Longrightarrow> recursive_backtracking (n + k) c a = Some t"
  by (induction k) (simp_all add: recursive_backtracking_Suc_mono del: recursive_backtracking.simps)

text \<open>Any fuel above the number of variables gives the result of \<open>solve\<close>.\<close>

lemma solve_fuel:
  assumes "length (variables c) < n"
  shows "recursive_backtracking n c [] = solve c"
proof -
  from solve_returns [of c] obtain t where t: "solve c = Some t" by auto
  from assms obtain k where n: "n = Suc (length (variables c)) + k"
    by (metis Suc_leI le_Suc_ex)
  from recursive_backtracking_mono [OF t [unfolded solve_def], of k] t n show ?thesis by simp
qed

subsection \<open>The calls of a run\<close>

lemma try_values_found:
  "try_values rec variable xs c a = Some (Inr (r, c', a')) \<Longrightarrow> truthy r \<Longrightarrow>
     \<exists>c1 a1. loop_calls rec variable xs c a c1 a1 \<and> rec c1 a1 = Some (Inr (r, c', a'))"
proof (induction xs arbitrary: c a)
  case Nil
  then show ?case by auto
next
  case (Cons x xs)
  obtain ok a1 where v: "is_assignment_valid c variable x a = (ok, a1)"
    by (cases "is_assignment_valid c variable x a")
  show ?case
  proof (cases ok)
    case False
    with v have v': "is_assignment_valid c variable x a = (False, a1)" by simp
    with Cons.prems have "try_values rec variable xs c a1 = Some (Inr (r, c', a'))" by simp
    from Cons.IH [OF this Cons.prems(2)] obtain c1 a2 where
      lc: "loop_calls rec variable xs c a1 c1 a2" and "rec c1 a2 = Some (Inr (r, c', a'))" by blast
    with loop_calls.after_rejected [OF v' lc] show ?thesis by blast
  next
    case True
    with v have v': "is_assignment_valid c variable x a = (True, a1)" by simp
    let ?a = "AList.update variable x a1"
    from Cons.prems(1) v' obtain result c1 a2 where u: "rec c ?a = Some (Inr (result, c1, a2))"
      by (cases "rec c ?a") (auto split: sum.splits)
    show ?thesis
    proof (cases "truthy result")
      case t: True
      with Cons.prems(1) v' u have "rec c ?a = Some (Inr (r, c', a'))" by simp
      with loop_calls.accepted [OF v', of rec xs] show ?thesis by blast
    next
      case f: False
      with Cons.prems(1) v' u obtain a3 where d: "py_del variable a2 = Inr a3"
        and rest: "try_values rec variable xs c1 a3 = Some (Inr (r, c', a'))"
        by (cases "py_del variable a2") auto
      from Cons.IH [OF rest Cons.prems(2)] obtain c2 a4 where
        lc: "loop_calls rec variable xs c1 a3 c2 a4" and "rec c2 a4 = Some (Inr (r, c', a'))"
        by blast
      with loop_calls.after_failed [OF v' u f d lc] show ?thesis by blast
    qed
  qed
qed

text \<open>The assignment that \<open>solve\<close> returns is the assignment at the entry of a call.\<close>

lemma entered_solution:
  "entered c0 n c a \<Longrightarrow> recursive_backtracking n c a = Some (Inr (Some s, c', a')) \<Longrightarrow>
     \<exists>n' c1. entered c0 n' c1 s"
proof (induction n arbitrary: c a)
  case 0
  then show ?case by simp
next
  case (Suc n)
  from Suc.prems(2) show ?case
  proof (cases rule: recursive_backtracking_Suc_cases)
    case complete
    with Suc.prems(1) show ?thesis by auto
  next
    case (search variable c1 vals c2 a1)
    have "variable \<in> set (variables c)"
      using select_next_variable_Inr [OF search(2)] by (simp add: unassigned_vars_mem)
    moreover from recursive_backtracking_post [OF step_preserves_True TrueI Suc.prems(2)]
    have "length s = length (variables c)" by (auto simp: rb_post_def)
    ultimately have "truthy (Some s)" by auto
    from try_values_found [OF search(4) this] obtain c3 a3 where
      lc: "loop_calls (recursive_backtracking n) variable vals c2 a1 c3 a3"
      and r: "recursive_backtracking n c3 a3 = Some (Inr (Some s, c', a'))" by blast
    from entered.deeper [OF Suc.prems(1) search(1,2,3) lc] have "entered c0 n c3 a3" .
    from Suc.IH [OF this r] show ?thesis .
  qed
qed

lemma solve_solution_entered:
  "solve c0 = Some (Inr (Some s, c', a')) \<Longrightarrow> \<exists>n c. entered c0 n c s"
  unfolding solve_def using entered_solution [OF entered.top] by blast

subsection \<open>Constraints over unlisted variables\<close>

lemma check_constraints_filter:
  assumes "keys a \<subseteq> V"
  shows "check_constraints cs variable a
           = check_constraints (filter (\<lambda>q. set (fst q) \<subseteq> V) cs) variable a"
proof -
  have "\<And>q. set (fst q) \<subseteq> keys a \<Longrightarrow> set (fst q) \<subseteq> V"
    using assms by blast
  then show ?thesis unfolding check_constraints_iff by (simp only: set_filter) blast
qed

lemma entered_partial_assignment: "entered c0 n c a \<Longrightarrow> partial_assignment c0 a"
proof (induction rule: entered.induct)
  case top
  show ?case by (rule partial_assignment_Nil)
next
  case (deeper n c a variable c1 vals c2 a1 c' a')
  from entered_only_defaulted [OF deeper(1)] have od0: "only_defaulted c0 c" .
  from select_next_variable_Inr [OF deeper(3)]
  have var: "variable \<in> set (variables c)" and fresh: "variable \<notin> keys a"
    by (simp_all add: unassigned_vars_mem)
  from order_values_Inr [OF deeper(4) fresh] have a1: "a1 = a" by simp
  have rec: "\<forall>c1 x r c2 a2.
      recursive_backtracking n c1 (AList.update variable x a) = Some (Inr (r, c2, a2)) \<longrightarrow>
      only_defaulted c1 c2 \<and> (\<not> truthy r \<longrightarrow> a2 = AList.update variable x a)"
    using recursive_backtracking_restores by blast
  from loop_calls_step [OF deeper(5) [unfolded a1] fresh rec] obtain x where
    a': "a' = AList.update variable x a" by blast
  from var only_defaulted_fields(1) [OF od0] have "variable \<in> set (variables c0)" by simp
  from partial_assignment_update [OF deeper.IH this] a' show ?case by simp
qed

section \<open>The example instances, evaluated\<close>

lemma csp_ab_fields:
  "variables csp_ab = [''A'', ''B'']"
  "domains csp_ab = [''A'' \<mapsto> [1, 2], ''B'' \<mapsto> [1, 2]]"
  "constraints csp_ab = [([''A'', ''B''], differ)]"
  by (simp_all add: csp_ab_def CSP_init_fields)

lemma csp_ab_neighbors: "neighbors csp_ab = [''A'' \<mapsto> [''B''], ''B'' \<mapsto> [''A'']]"
  by (simp add: csp_ab_def CSP_init_def create_constraint_graph_def extend_neighbors_def
      neighbors_getitem_def)

lemma csp_ab_eq:
  "csp_ab = \<lparr>variables = [''A'', ''B''], domains = [''A'' \<mapsto> [1, 2], ''B'' \<mapsto> [1, 2]],
     constraints = [([''A'', ''B''], differ)], neighbors = [''A'' \<mapsto> [''B''], ''B'' \<mapsto> [''A'']]\<rparr>"
  by (simp add: csp_ab_def CSP_init_def create_constraint_graph_def extend_neighbors_def
      neighbors_getitem_def)

lemma csp_ab_solve:
  "solve csp_ab = Some (Inr (Some [(''A'', 1), (''B'', 2)], csp_ab, [(''A'', 1), (''B'', 2)]))"
  unfolding csp_ab_eq
  by (simp add: solve_def select_next_variable_def unassigned_vars_def keys_def
      order_values_by_least_conflicts_def count_conflicts_def neighbors_getitem_def
      is_assignment_valid_def py_del_def differ_def Let_def)

lemmas eval_defs = select_next_variable_def unassigned_vars_def keys_def
      order_values_by_least_conflicts_def count_conflicts_def neighbors_getitem_def
      is_assignment_valid_def py_del_def differ_def Let_def

lemma csp_ab_entered_top: "entered csp_ab (Suc (Suc (Suc 0))) csp_ab []"
  using entered.top [of csp_ab] by (simp add: csp_ab_fields)

lemma csp_ab_entered_A: "entered csp_ab (Suc (Suc 0)) csp_ab [(''A'', 1)]"
proof -
  have 1: "length ([] :: assignment) \<noteq> length (variables csp_ab)"
    by (simp add: csp_ab_fields)
  have 2: "select_next_variable csp_ab [] = Inr (''A'', csp_ab)"
    unfolding csp_ab_eq by (simp add: eval_defs)
  have 3: "order_values_by_least_conflicts csp_ab ''A'' [] = Inr ([1, 2], csp_ab, [])"
    unfolding csp_ab_eq by (simp add: eval_defs)
  have "is_assignment_valid csp_ab ''A'' 1 [] = (True, [])"
    unfolding csp_ab_eq by (simp add: eval_defs)
  from loop_calls.accepted [OF this, of "recursive_backtracking (Suc (Suc 0))" "[2]"]
  have 4: "loop_calls (recursive_backtracking (Suc (Suc 0))) ''A'' [1, 2] csp_ab [] csp_ab [(''A'', 1)]"
    by simp
  from entered.deeper [OF csp_ab_entered_top 1 2 3 4] show ?thesis .
qed

lemma csp_ab_entered_AB: "entered csp_ab (Suc 0) csp_ab [(''A'', 1), (''B'', 2)]"
proof -
  have 1: "length [(''A'', 1::int)] \<noteq> length (variables csp_ab)"
    by (simp add: csp_ab_fields)
  have 2: "select_next_variable csp_ab [(''A'', 1)] = Inr (''B'', csp_ab)"
    unfolding csp_ab_eq by (simp add: eval_defs)
  have 3: "order_values_by_least_conflicts csp_ab ''B'' [(''A'', 1)] = Inr ([1, 2], csp_ab, [(''A'', 1)])"
    unfolding csp_ab_eq by (simp add: eval_defs)
  have r: "is_assignment_valid csp_ab ''B'' 1 [(''A'', 1)] = (False, [(''A'', 1)])"
    unfolding csp_ab_eq by (simp add: eval_defs)
  have "is_assignment_valid csp_ab ''B'' 2 [(''A'', 1)] = (True, [(''A'', 1)])"
    unfolding csp_ab_eq by (simp add: eval_defs)
  from loop_calls.accepted [OF this, of "recursive_backtracking (Suc 0)" "[]"]
  have "loop_calls (recursive_backtracking (Suc 0)) ''B'' [2] csp_ab [(''A'', 1)] csp_ab
      [(''A'', 1), (''B'', 2)]"
    by simp
  from loop_calls.after_rejected [OF r this]
  have 4: "loop_calls (recursive_backtracking (Suc 0)) ''B'' [1, 2] csp_ab [(''A'', 1)] csp_ab
      [(''A'', 1), (''B'', 2)]" .
  from entered.deeper [OF csp_ab_entered_A 1 2 3 4] show ?thesis .
qed

lemma csp_free_eq:
  "csp_free = \<lparr>variables = [''A'', ''B''], domains = [''A'' \<mapsto> [3, 1], ''B'' \<mapsto> [2, 5]],
     constraints = [], neighbors = Map.empty\<rparr>"
  by (simp add: csp_free_def CSP_init_no_constraints)

lemma csp_free_solve:
  "solve csp_free = Some (Inr (Some [(''A'', 3), (''B'', 2)],
     csp_free\<lparr>neighbors := [''A'' \<mapsto> [], ''B'' \<mapsto> []]\<rparr>, [(''A'', 3), (''B'', 2)]))"
  unfolding csp_free_eq
  by (simp add: solve_def eval_defs)

lemma csp_undeclared_eq:
  "csp_undeclared = \<lparr>variables = [''A''], domains = [''A'' \<mapsto> [1]],
     constraints = [([''X''], \<lambda>xs. False)], neighbors = [''X'' \<mapsto> []]\<rparr>"
  by (simp add: csp_undeclared_def CSP_init_def create_constraint_graph_def extend_neighbors_def
      neighbors_getitem_def)

lemma csp_missing_domain_eq:
  "csp_missing_domain = \<lparr>variables = [''A''], domains = [''A'' \<mapsto> [1]],
     constraints = [([''A'', ''X''], differ)], neighbors = [''A'' \<mapsto> [''X''], ''X'' \<mapsto> [''A'']]\<rparr>"
  by (simp add: csp_missing_domain_def CSP_init_def create_constraint_graph_def extend_neighbors_def
      neighbors_getitem_def)

lemma csp_missing_domain_select:
  "select_next_variable csp_missing_domain [] = Inr (''A'', csp_missing_domain)"
  unfolding csp_missing_domain_eq by (simp add: eval_defs)

lemma csp_missing_domain_entered:
  "entered csp_missing_domain (Suc (Suc 0)) csp_missing_domain []"
  using entered.top [of csp_missing_domain] by (simp add: csp_missing_domain_eq)

lemma csp_missing_domain_solve: "solve csp_missing_domain = Some (Inl (KeyError ''X''))"
  unfolding csp_missing_domain_eq by (simp add: solve_def eval_defs)

lemma csp_mrv_eq:
  "csp_mrv = \<lparr>variables = [''A'', ''B'', ''C''],
     domains = [''A'' \<mapsto> [1], ''B'' \<mapsto> [1, 2], ''C'' \<mapsto> [1, 2]],
     constraints = [([''B'', ''C''], differ)], neighbors = [''B'' \<mapsto> [''C''], ''C'' \<mapsto> [''B'']]\<rparr>"
  by (simp add: csp_mrv_def CSP_init_def create_constraint_graph_def extend_neighbors_def
      neighbors_getitem_def)

lemma csp_undeclared_entered:
  "entered csp_undeclared (Suc (Suc 0)) csp_undeclared []"
  using entered.top [of csp_undeclared] by (simp add: csp_undeclared_eq)

lemma csp_unlisted_domain_eq:
  "csp_unlisted_domain = \<lparr>variables = [''A''], domains = [''A'' \<mapsto> [1], ''X'' \<mapsto> [1]],
     constraints = [([''A'', ''X''], differ)], neighbors = [''A'' \<mapsto> [''X''], ''X'' \<mapsto> [''A'']]\<rparr>"
  by (simp add: csp_unlisted_domain_def CSP_init_def create_constraint_graph_def
      extend_neighbors_def neighbors_getitem_def)

text \<open>
  The look-ahead of value ordering binds the unlisted neighbour \<open>X\<close> tentatively and
  evaluates the constraint (one value of \<open>X\<close> is counted as rejected); the check of the
  value of \<open>A\<close> skips it, and \<open>solve\<close> returns \<open>A = 1\<close>.
\<close>

lemma csp_unlisted_domain_run:
  "count_conflicts csp_unlisted_domain ''A'' 1 [] = Inr (1, csp_unlisted_domain, [])
   \<and> is_assignment_valid csp_unlisted_domain ''A'' 1 [] = (True, [])
   \<and> solve csp_unlisted_domain = Some (Inr (Some [(''A'', 1)], csp_unlisted_domain, [(''A'', 1)]))"
  unfolding csp_unlisted_domain_eq by (simp add: solve_def eval_defs)

section \<open>The claims\<close>

subsection \<open>Returned solutions\<close>

text \<open>
  Claim C1: whenever \<open>solve\<close> returns a result other than \<open>None\<close>, the returned
  assignment has as many entries as there are variables and binds every variable, and
  every constraint's predicate is true on the returned values of its tuple's variables,
  in tuple order. The instance is one of the data model: every constraint ranges over
  one or more of the declared variables.
\<close>

theorem solve_sound:
  assumes "solve c = Some (Inr (Some s, c', a'))"
    and "\<forall>p \<in> set (constraints c). fst p \<noteq> [] \<and> set (fst p) \<subseteq> set (variables c)"
  shows "length s = length (variables c)
         \<and> keys s = set (variables c)
         \<and> (\<forall>p \<in> set (constraints c). snd p (map (\<lambda>v. the (map_of s v)) (fst p)))"
proof -
  let ?I = "\<lambda>a. consistent c a \<and> partial_assignment c a"
  have "?I []" using assms(2) by (simp add: consistent_Nil partial_assignment_Nil)
  from recursive_backtracking_post [OF step_preserves_consistent this assms(1) [unfolded solve_def]]
  have s: "consistent c s" "partial_assignment c s" "length s = length (variables c)"
    by (auto simp: rb_post_def)
  from partial_assignment_complete [OF s(2,3)] have k: "keys s = set (variables c)" by simp
  with s(1) assms(2) have "\<forall>p \<in> set (constraints c). snd p (map (\<lambda>v. the (map_of s v)) (fst p))"
    by (simp add: consistent_def)
  with s(3) k show ?thesis by simp
qed

theorem solve_sound_witness:
  "solve csp_ab = Some (Inr (Some [(''A'', 1), (''B'', 2)], csp_ab, [(''A'', 1), (''B'', 2)]))
   \<and> length [(''A'', 1::int), (''B'', 2)] = length (variables csp_ab)
   \<and> keys [(''A'', 1), (''B'', 2)] = set (variables csp_ab)
   \<and> differ [1, 2]"
  using solve_sound [OF csp_ab_solve]
  by (simp add: csp_ab_solve csp_ab_fields keys_def differ_def)

subsection \<open>Variable selection\<close>

text \<open>
  Claim C2: the selector returns an unassigned variable of smallest domain, ties broken by
  the larger neighbour count. The docstring of \<open>_select_next_variable\<close> announces the two
  heuristics in that order and the sorted list is called \<open>min_domain_vars\<close>, but \<open>max\<close>
  is taken over the whole sorted list: the neighbour count decides and the domain size
  only breaks its ties (\<open>select_next_variable_spec\<close>). In the first call of \<open>solve\<close> on
  the instance below, \<open>A\<close> has one value left and \<open>B\<close> has two, and \<open>B\<close> is returned.
\<close>

theorem select_next_variable_not_mrv:
  "select_next_variable csp_mrv []
     = Inr (''B'', csp_mrv\<lparr>neighbors := [''B'' \<mapsto> [''C''], ''C'' \<mapsto> [''B''], ''A'' \<mapsto> []]\<rparr>)
   \<and> unassigned_vars csp_mrv [] = [''A'', ''B'', ''C'']
   \<and> map_option length (domains csp_mrv ''A'') = Some 1
   \<and> map_option length (domains csp_mrv ''B'') = Some 2"
  unfolding csp_mrv_eq by (simp add: eval_defs)

subsection \<open>The checker and the assignment\<close>

text \<open>
  Claim C3 says that the assignment after a call of the checker is the assignment before
  it, also when the variable was bound before the call. The checker sets the key and
  deletes it, and keeps no copy of an earlier value: a binding that the variable had is
  gone after the call. Here \<open>A\<close> is bound to 1 before the call and unbound after it.
\<close>

theorem is_assignment_valid_drops_binding:
  "snd (is_assignment_valid csp_ab ''A'' 2 [(''A'', 1)]) \<noteq> [(''A'', 1)]"
  by (simp add: snd_is_assignment_valid)

text \<open>
  C3, amended: when the variable is not bound before the call, the assignment after the
  call is the assignment before it, whatever the result; when it is bound, the assignment
  after the call is the one before it without that variable.
\<close>

theorem is_assignment_valid_assignment:
  "snd (is_assignment_valid c variable x a)
     = (if variable \<in> keys a then AList.delete variable a else a)"
  by (simp add: snd_is_assignment_valid keys_def)

theorem is_assignment_valid_assignment_witness:
  "fst (is_assignment_valid csp_ab ''A'' 1 [(''B'', 1)]) = False
   \<and> snd (is_assignment_valid csp_ab ''A'' 1 [(''B'', 1)]) = [(''B'', 1)]
   \<and> snd (is_assignment_valid csp_ab ''A'' 2 [(''A'', 1), (''B'', 1)]) = [(''B'', 1)]"
  using is_assignment_valid_assignment [of csp_ab "''A''" 1 "[(''B'', 1)]"]
    is_assignment_valid_assignment [of csp_ab "''A''" 2 "[(''A'', 1), (''B'', 1)]"]
  by (simp add: keys_def fst_is_assignment_valid csp_ab_def CSP_init_fields differ_def)

subsection \<open>The result of the checker\<close>

text \<open>
  Claim C4: the checker returns false exactly when some constraint whose tuple contains
  the variable has all the variables of its tuple bound in the tentative assignment (the
  given one with the variable set to the value) and its predicate is false on their
  values, taken in tuple order. So when every constraint over the variable still has an
  unbound variable in its tuple, the checker returns true.
\<close>

theorem is_assignment_valid_iff:
  "(fst (is_assignment_valid c variable x a) = False \<longleftrightarrow>
      (\<exists>p \<in> set (constraints c).
         variable \<in> set (fst p)
         \<and> set (fst p) \<subseteq> keys (AList.update variable x a)
         \<and> \<not> snd p (map (\<lambda>v. the (map_of (AList.update variable x a) v)) (fst p))))
   \<and> ((\<forall>p \<in> set (constraints c).
          variable \<in> set (fst p) \<longrightarrow> \<not> set (fst p) \<subseteq> keys (AList.update variable x a))
        \<longrightarrow> fst (is_assignment_valid c variable x a) = True)"
  unfolding fst_is_assignment_valid check_constraints_iff by blast

theorem is_assignment_valid_iff_witness:
  "fst (is_assignment_valid csp_ab ''A'' 1 [(''B'', 1)]) = False
   \<and> fst (is_assignment_valid csp_ab ''A'' 1 [(''B'', 2)]) = True
   \<and> fst (is_assignment_valid csp_ab ''A'' 1 []) = True"
  using is_assignment_valid_iff [of csp_ab "''A''" 1 "[(''B'', 1)]"]
    is_assignment_valid_iff [of csp_ab "''A''" 1 "[(''B'', 2)]"]
    is_assignment_valid_iff [of csp_ab "''A''" 1 "[]"]
  by (simp add: keys_def csp_ab_def CSP_init_fields differ_def)

subsection \<open>The invariant of the search\<close>

text \<open>
  Claim C5: the assignment at the entry of every call of \<open>_recursive_backtracking\<close> that a
  run of \<open>solve\<close> makes satisfies every constraint whose whole tuple is bound in it; a
  constraint with an unbound variable asks nothing. Constraints range over one or more
  variables, as in the data model.
\<close>

theorem entered_consistent:
  assumes "entered c0 n c a" and "\<forall>p \<in> set (constraints c0). fst p \<noteq> []"
  shows "\<forall>p \<in> set (constraints c0).
           set (fst p) \<subseteq> keys a \<longrightarrow> snd p (map (\<lambda>v. the (map_of a v)) (fst p))"
  using entered_invariant [OF assms] by (simp add: consistent_def)

theorem entered_consistent_witness:
  "entered csp_ab (Suc 0) csp_ab [(''A'', 1), (''B'', 2)]
   \<and> set [''A'', ''B''] \<subseteq> keys [(''A'', 1), (''B'', 2)]
   \<and> differ [1, 2]"
  using entered_consistent [OF csp_ab_entered_AB] csp_ab_entered_AB
  by (simp add: csp_ab_fields keys_def)

subsection \<open>An empty domain\<close>

text \<open>
  Claim C6: when some variable has an empty domain, \<open>solve\<close> returns \<open>None\<close>, and it
  returns: nothing is raised and the fuel does not run out. The instance is one of the
  data model: every variable has a domain, and the constraints range over the declared
  variables.
\<close>

theorem solve_empty_domain:
  assumes "\<forall>v \<in> set vs. ds v \<noteq> None"
    and "\<forall>p \<in> set cs. set (fst p) \<subseteq> set vs"
    and "\<exists>v \<in> set vs. ds v = Some []"
  shows "\<exists>c'. solve (CSP_init vs ds cs) = Some (Inr (None, c', []))"
proof -
  let ?c = "CSP_init vs ds cs"
  have dom: "\<forall>v \<in> set (variables ?c). domains ?c v \<noteq> None"
    using assms(1) by (simp add: CSP_init_fields)
  have ndom: "\<forall>v \<in> set (variables ?c). \<forall>n \<in> set (neighbor_list ?c v). domains ?c n \<noteq> None"
  proof (intro ballI)
    fix v n
    assume "n \<in> set (neighbor_list ?c v)"
    from neighbor_list_CSP_init [OF this] assms(2) have "n \<in> set vs" by auto
    with assms(1) show "domains ?c n \<noteq> None" by (simp add: CSP_init_fields)
  qed
  from assms(3) obtain v0 where "v0 \<in> set (variables ?c)" "domains ?c v0 = Some []"
    by (auto simp: CSP_init_fields)
  from solve_empty_domain_aux [OF dom ndom this] show ?thesis .
qed

theorem solve_empty_domain_witness:
  "\<exists>c'. solve csp_empty_domain = Some (Inr (None, c', []))"
  using solve_empty_domain [of "[''A'', ''B'']" "[''A'' \<mapsto> [], ''B'' \<mapsto> [1]]" "[([''A'', ''B''], differ)]"]
  by (simp add: csp_empty_domain_def)

subsection \<open>No constraints\<close>

text \<open>
  Claim C7: with an empty constraint list and a non-empty domain for every variable,
  \<open>solve\<close> succeeds and returns a complete assignment that maps every variable to the
  first value of its domain. The variables are those of the data model, a set given in
  some order: no name is listed twice.
\<close>

theorem solve_no_constraints:
  assumes "distinct vs" and "\<forall>v \<in> set vs. \<exists>d. ds v = Some d \<and> d \<noteq> []"
  shows "\<exists>s c'. solve (CSP_init vs ds []) = Some (Inr (Some s, c', s))
           \<and> length s = length vs
           \<and> (\<forall>v \<in> set vs. map_of s v = Some (hd (the (ds v))))"
proof -
  let ?c = "CSP_init vs ds []"
  have 1: "constraints ?c = []" and 2: "\<forall>v. neighbor_list ?c v = []"
    and 3: "distinct (variables ?c)"
    and 4: "\<forall>v \<in> set (variables ?c). \<exists>d. domains ?c v = Some d \<and> d \<noteq> []"
    using assms by (simp_all add: CSP_init_no_constraints neighbor_list_def)
  have 5: "length (unassigned_vars ?c []) < Suc (length (variables ?c))"
    by (simp add: unassigned_vars_Nil)
  from no_constraints_search [OF 1 2 3 4 partial_assignment_Nil 5]
  show ?thesis unfolding solve_def by (simp add: CSP_init_fields keys_Nil)
qed

theorem solve_no_constraints_witness:
  "\<exists>s c'. solve csp_free = Some (Inr (Some s, c', s))
     \<and> length s = Suc (Suc 0) \<and> map_of s ''A'' = Some 3 \<and> map_of s ''B'' = Some 2"
  using solve_no_constraints [of "[''A'', ''B'']" "[''A'' \<mapsto> [3, 1], ''B'' \<mapsto> [2, 5]]"]
  by (simp add: csp_free_def)

text \<open>Listing a variable twice leaves \<open>max\<close> with an empty sequence in the second call.\<close>

lemma solve_repeated_variable: "solve csp_twice = Some (Inl ValueError)"
  unfolding csp_twice_def CSP_init_no_constraints
  by (simp add: solve_def select_next_variable_def unassigned_vars_def keys_def
      order_values_by_least_conflicts_def count_conflicts_def neighbors_getitem_def
      is_assignment_valid_def py_del_def Let_def)

subsection \<open>The constraint graph during the search\<close>

text \<open>
  Claim C8 says that nothing done during \<open>solve\<close> changes the neighbors mapping in any
  way. The mapping is a \<open>defaultdict\<close>, and the degree heuristic subscripts it with every
  unassigned variable: a variable that occurs in no constraint has no key after
  construction and has one, with an empty list, after the first selection. Here the
  mapping is empty before \<open>solve\<close> and has two keys after it.
\<close>

theorem solve_stores_neighbor_keys:
  "neighbors csp_free = Map.empty
   \<and> solve csp_free = Some (Inr (Some [(''A'', 3), (''B'', 2)],
       csp_free\<lparr>neighbors := [''A'' \<mapsto> [], ''B'' \<mapsto> []]\<rparr>, [(''A'', 3), (''B'', 2)]))
   \<and> neighbors (csp_free\<lparr>neighbors := [''A'' \<mapsto> [], ''B'' \<mapsto> []]\<rparr>) ''A'' \<noteq> neighbors csp_free ''A''"
  using csp_free_solve by (simp add: csp_free_eq)

text \<open>
  C8, amended: variable selection, value ordering and the whole of \<open>solve\<close>, when they
  return, leave the variables, the domains and the constraints as they were, and the
  list that the mapping gives for any variable (empty for a missing key) is the same
  after as before; the only change to the mapping is that keys that were missing may
  be stored with an empty list. The checker has no access to the mapping.
\<close>

theorem solve_neighbors:
  "(select_next_variable c a = Inr (v, c1) \<longrightarrow>
      only_defaulted c c1 \<and> (\<forall>u. neighbor_list c1 u = neighbor_list c u))
   \<and> (order_values_by_least_conflicts c variable a = Inr (vals, c2, a2) \<longrightarrow>
      only_defaulted c c2 \<and> (\<forall>u. neighbor_list c2 u = neighbor_list c u))
   \<and> (solve c = Some (Inr (r, c3, a3)) \<longrightarrow>
      only_defaulted c c3 \<and> (\<forall>u. neighbor_list c3 u = neighbor_list c u))"
proof (intro conjI impI)
  assume "select_next_variable c a = Inr (v, c1)"
  from select_next_variable_Inr [OF this] show "only_defaulted c c1" by simp
  then show "\<forall>u. neighbor_list c1 u = neighbor_list c u"
    by (simp add: only_defaulted_neighbor_list)
next
  assume "order_values_by_least_conflicts c variable a = Inr (vals, c2, a2)"
  then show "only_defaulted c c2" by (rule order_values_only_defaulted)
  then show "\<forall>u. neighbor_list c2 u = neighbor_list c u"
    by (simp add: only_defaulted_neighbor_list)
next
  assume "solve c = Some (Inr (r, c3, a3))"
  from recursive_backtracking_restores [OF this [unfolded solve_def]]
  show "only_defaulted c c3" by simp
  then show "\<forall>u. neighbor_list c3 u = neighbor_list c u"
    by (simp add: only_defaulted_neighbor_list)
qed

theorem solve_neighbors_witness:
  "solve csp_ab = Some (Inr (Some [(''A'', 1), (''B'', 2)], csp_ab, [(''A'', 1), (''B'', 2)]))
   \<and> only_defaulted csp_free (csp_free\<lparr>neighbors := [''A'' \<mapsto> [], ''B'' \<mapsto> []]\<rparr>)
   \<and> neighbor_list (csp_free\<lparr>neighbors := [''A'' \<mapsto> [], ''B'' \<mapsto> []]\<rparr>) ''A''
       = neighbor_list csp_free ''A''
   \<and> neighbor_list csp_ab ''A'' = [''B'']"
proof -
  from csp_free_solve
    solve_neighbors [where c = csp_free and r = "Some [(''A'', 3), (''B'', 2)]"
      and ?c3.0 = "csp_free\<lparr>neighbors := [''A'' \<mapsto> [], ''B'' \<mapsto> []]\<rparr>"
      and ?a3.0 = "[(''A'', 3), (''B'', 2)]"]
  have "only_defaulted csp_free (csp_free\<lparr>neighbors := [''A'' \<mapsto> [], ''B'' \<mapsto> []]\<rparr>)"
    and "neighbor_list (csp_free\<lparr>neighbors := [''A'' \<mapsto> [], ''B'' \<mapsto> []]\<rparr>) ''A''
          = neighbor_list csp_free ''A''"
    by blast+
  then show ?thesis using csp_ab_solve by (simp add: neighbor_list_def csp_ab_neighbors)
qed

subsection \<open>Constraints over undeclared variables\<close>

text \<open>
  Claim C9 says that a constraint over a variable that is not in the variable list or
  not in the domain mapping is surfaced at once as a fatal error, and is never skipped.
  Neither the constructor nor the search validates anything. Here the only constraint
  ranges over \<open>X\<close>, which is no variable and has no domain, and its predicate is false
  on every value; \<open>solve\<close> raises nothing and returns \<open>A = 1\<close>.
\<close>

theorem solve_skips_undeclared:
  "constraints csp_undeclared = [([''X''], \<lambda>xs. False)]
   \<and> ''X'' \<notin> set (variables csp_undeclared)
   \<and> domains csp_undeclared ''X'' = None
   \<and> solve csp_undeclared = Some (Inr (Some [(''A'', 1)],
       csp_undeclared\<lparr>neighbors := [''X'' \<mapsto> [], ''A'' \<mapsto> []]\<rparr>, [(''A'', 1)]))"
  unfolding csp_undeclared_eq by (simp add: solve_def eval_defs)

text \<open>
  C9, amended, for a variable \<open>u\<close> in the tuple of a constraint. (1) If \<open>u\<close> is in the
  variable list and has no entry in the domain mapping, it is surfaced at first use: the
  variable selection of the first call raises \<open>KeyError\<close> for a listed variable that has
  no domain, and so does \<open>solve\<close>. (2) If \<open>u\<close> is not in the variable list, the constraint
  is skipped when the search checks a value before committing it: for the assignment at
  the entry of any call, any listed variable and any value, the verdict of the checker
  is its verdict on the constraints whose tuples contain listed variables only. (3) If
  \<open>u\<close> is neither in the variable list nor in the domain mapping, and a call of the
  search selects a variable that has a non-empty domain and shares a constraint with
  \<open>u\<close>, then the value ordering for that variable raises \<open>KeyError\<close> for a name that has
  no domain, and so does \<open>solve\<close>.
\<close>

theorem undeclared_variable:
  "(p \<in> set cs \<and> u \<in> set (fst p) \<and> u \<in> set vs \<and> ds u = None \<longrightarrow>
      (\<exists>m. select_next_variable (CSP_init vs ds cs) [] = Inl (KeyError m)
         \<and> solve (CSP_init vs ds cs) = Some (Inl (KeyError m)) \<and> m \<in> set vs \<and> ds m = None))
   \<and> (entered (CSP_init vs ds cs) n c a \<and> variable \<in> set vs \<longrightarrow>
      fst (is_assignment_valid c variable x a)
        = check_constraints (filter (\<lambda>q. set (fst q) \<subseteq> set vs) cs) variable
            (AList.update variable x a))
   \<and> (entered (CSP_init vs ds cs) (Suc k) c' a' \<and> length a' \<noteq> length vs
        \<and> select_next_variable c' a' = Inr (v, c1) \<and> ds v = Some (y # ys)
        \<and> p \<in> set cs \<and> v \<in> set (fst p) \<and> u \<in> set (fst p) \<and> u \<notin> set vs \<and> ds u = None \<longrightarrow>
      (\<exists>m. order_values_by_least_conflicts c1 v a' = Inl (KeyError m)
         \<and> solve (CSP_init vs ds cs) = Some (Inl (KeyError m)) \<and> ds m = None))"
proof (intro conjI impI)
  let ?c0 = "CSP_init vs ds cs"
  assume h: "p \<in> set cs \<and> u \<in> set (fst p) \<and> u \<in> set vs \<and> ds u = None"
  then have "u \<in> set (unassigned_vars ?c0 [])" "domains ?c0 u = None"
    by (simp_all add: unassigned_vars_Nil CSP_init_fields)
  from select_next_variable_raises [OF this] obtain m where
    m: "select_next_variable ?c0 [] = Inl (KeyError m)" "m \<in> set vs" "ds m = None"
    by (auto simp: unassigned_vars_Nil CSP_init_fields)
  from h have "length ([] :: assignment) \<noteq> length (variables ?c0)"
    by (auto simp: CSP_init_fields)
  with m(1) have "solve ?c0 = Some (Inl (KeyError m))" by (simp add: solve_def)
  with m show "\<exists>m. select_next_variable ?c0 [] = Inl (KeyError m)
      \<and> solve ?c0 = Some (Inl (KeyError m)) \<and> m \<in> set vs \<and> ds m = None"
    by blast
next
  let ?c0 = "CSP_init vs ds cs"
  assume h: "entered ?c0 n c a \<and> variable \<in> set vs"
  from h entered_only_defaulted have od: "only_defaulted ?c0 c" by blast
  from h entered_partial_assignment have "partial_assignment ?c0 a" by blast
  with h have "keys (AList.update variable x a) \<subseteq> set vs"
    by (simp add: partial_assignment_def keys_update CSP_init_fields)
  from check_constraints_filter [OF this] only_defaulted_fields(3) [OF od]
  show "fst (is_assignment_valid c variable x a)
      = check_constraints (filter (\<lambda>q. set (fst q) \<subseteq> set vs) cs) variable
          (AList.update variable x a)"
    by (simp add: fst_is_assignment_valid CSP_init_fields)
next
  let ?c0 = "CSP_init vs ds cs"
  assume h: "entered ?c0 (Suc k) c' a' \<and> length a' \<noteq> length vs
        \<and> select_next_variable c' a' = Inr (v, c1) \<and> ds v = Some (y # ys)
        \<and> p \<in> set cs \<and> v \<in> set (fst p) \<and> u \<in> set (fst p) \<and> u \<notin> set vs \<and> ds u = None"
  then have e: "entered ?c0 (Suc k) c' a'" and s: "select_next_variable c' a' = Inr (v, c1)"
    by simp_all
  from entered_only_defaulted [OF e] have od0: "only_defaulted ?c0 c'" .
  from select_next_variable_Inr [OF s] have od1: "only_defaulted c' c1" by simp
  from od0 od1 have od: "only_defaulted ?c0 c1" by (rule only_defaulted_trans)
  note f = only_defaulted_fields [OF od]
  from entered_partial_assignment [OF e] h have fresh: "u \<notin> keys a'"
    by (auto simp: partial_assignment_def CSP_init_fields)
  from h have ne: "u \<noteq> v" by auto
  with h have "u \<in> set (neighbor_list ?c0 v)"
    unfolding set_neighbor_list_CSP_init by blast
  with only_defaulted_neighbor_list [OF od] have 1: "u \<in> set (neighbor_list c1 v)" by simp
  have 2: "domains c1 v = Some (y # ys)" and 3: "domains c1 u = None"
    using h f(2) by (simp_all add: CSP_init_fields)
  from order_values_raises [OF 2 1 ne fresh 3] obtain m where
    m: "order_values_by_least_conflicts c1 v a' = Inl (KeyError m)" "domains c1 m = None"
    by blast
  have "length a' \<noteq> length (variables c')"
    using h only_defaulted_fields(1) [OF od0] by (simp add: CSP_init_fields)
  with s m(1) have "recursive_backtracking (Suc k) c' a' = Some (Inl (KeyError m))"
    by simp
  from entered_raise [OF e this] have "solve ?c0 = Some (Inl (KeyError m))" .
  moreover from m(2) f(2) have "ds m = None" by (simp add: CSP_init_fields)
  ultimately show "\<exists>m. order_values_by_least_conflicts c1 v a' = Inl (KeyError m)
      \<and> solve ?c0 = Some (Inl (KeyError m)) \<and> ds m = None"
    using m(1) by blast
qed

theorem undeclared_variable_witness:
  "(\<exists>m. select_next_variable csp_listed_no_domain [] = Inl (KeyError m)
        \<and> solve csp_listed_no_domain = Some (Inl (KeyError m))
        \<and> m \<in> set (variables csp_listed_no_domain) \<and> domains csp_listed_no_domain m = None)
   \<and> fst (is_assignment_valid csp_undeclared ''A'' 1 []) = True
   \<and> (\<exists>m. order_values_by_least_conflicts csp_missing_domain ''A'' [] = Inl (KeyError m)
        \<and> solve csp_missing_domain = Some (Inl (KeyError m))
        \<and> domains csp_missing_domain m = None)"
proof -
  have 1: "\<exists>m. select_next_variable csp_listed_no_domain [] = Inl (KeyError m)
        \<and> solve csp_listed_no_domain = Some (Inl (KeyError m))
        \<and> m \<in> set (variables csp_listed_no_domain) \<and> domains csp_listed_no_domain m = None"
    using undeclared_variable [where vs = "[''A'', ''X'']" and ds = "[''A'' \<mapsto> [1]]"
        and cs = "[([''X''], \<lambda>xs. False)]" and p = "([''X''], \<lambda>xs. False)" and u = "''X''",
        THEN conjunct1]
    by (simp add: csp_listed_no_domain_def CSP_init_fields)
  have e2: "entered (CSP_init [''A''] [''A'' \<mapsto> [1]] [([''X''], \<lambda>xs. False)]) (Suc (Suc 0))
      csp_undeclared []"
    using csp_undeclared_entered by (simp add: csp_undeclared_def)
  have 2: "fst (is_assignment_valid csp_undeclared ''A'' 1 []) = True"
    using undeclared_variable [where vs = "[''A'']" and ds = "[''A'' \<mapsto> [1]]"
        and cs = "[([''X''], \<lambda>xs. False)]" and n = "Suc (Suc 0)" and c = csp_undeclared
        and a = "[]" and variable = "''A''" and x = 1,
        THEN conjunct2, THEN conjunct1] e2
    by simp
  have e3: "entered (CSP_init [''A''] [''A'' \<mapsto> [1]] [([''A'', ''X''], differ)]) (Suc (Suc 0))
      csp_missing_domain []"
    using csp_missing_domain_entered by (simp add: csp_missing_domain_def)
  have 3: "\<exists>m. order_values_by_least_conflicts csp_missing_domain ''A'' [] = Inl (KeyError m)
        \<and> solve csp_missing_domain = Some (Inl (KeyError m))
        \<and> domains csp_missing_domain m = None"
    using undeclared_variable [where vs = "[''A'']" and ds = "[''A'' \<mapsto> [1]]"
        and cs = "[([''A'', ''X''], differ)]" and k = "Suc 0" and c' = csp_missing_domain
        and a' = "[]" and v = "''A''" and ?c1.0 = csp_missing_domain and y = 1 and ys = "[]"
        and p = "([''A'', ''X''], differ)" and u = "''X''",
        THEN conjunct2, THEN conjunct2] e3 csp_missing_domain_select
    by (simp add: csp_missing_domain_def CSP_init_fields)
  from 1 2 3 show ?thesis by blast
qed

subsection \<open>No variables\<close>

text \<open>
  Claim C10: with an empty variable list \<open>solve\<close> returns the empty assignment, which is
  not the no-solution indicator \<open>None\<close>, whatever the constraints are: the completeness
  test succeeds in the first call, before any constraint is looked at.
\<close>

theorem solve_no_variables:
  "variables c = [] \<Longrightarrow> solve c = Some (Inr (Some [], c, []))"
  by (simp add: solve_def)

theorem solve_no_variables_witness:
  "variables csp_no_vars = [] \<and> constraints csp_no_vars \<noteq> []
   \<and> solve csp_no_vars = Some (Inr (Some [], csp_no_vars, []))"
  using solve_no_variables [of csp_no_vars]
  by (simp add: csp_no_vars_def CSP_init_fields)

end
